theory Spec2Isabelle
  imports Main "HOL-Library.AList"
begin

section \<open>Data model\<close>

text \<open>
  The module \<^verbatim>\<open>src/hooks/markdownSourceMap.js\<close> decorates the output rules of
  a markdown renderer so that every rendered fragment carries an identifier which a
  line map relates to its source line.

  A token of the stream has a type, an optional source span \<open>[start, end)\<close> (the
  field \<^verbatim>\<open>map\<close>, \<^verbatim>\<open>null\<close> when the position is unknown), optional
  children (present on inline tokens), an optional ordered attribute bag (\<^verbatim>\<open>null\<close>
  until the first attribute is set) and a content string.
\<close>

datatype error = TypeError

datatype token =
  Token (type_t: string)
        (map_t: "(int \<times> int) option")
        (children: "token list option")
        (attrs: "(string \<times> string) list option")
        (content: string)

definition set_map_t :: "token \<Rightarrow> (int \<times> int) option \<Rightarrow> token" where
  "set_map_t t m = Token (type_t t) m (children t) (attrs t) (content t)"

definition set_children :: "token \<Rightarrow> token list option \<Rightarrow> token" where
  "set_children t cs = Token (type_t t) (map_t t) cs (attrs t) (content t)"

definition set_attrs :: "token \<Rightarrow> (string \<times> string) list option \<Rightarrow> token" where
  "set_attrs t a = Token (type_t t) (map_t t) (children t) a (content t)"

text \<open>
  The render pass context \<^verbatim>\<open>env\<close>: the absolute line at which the chunk begins,
  the ordinal of the chunk, and the line map (\<^verbatim>\<open>env.lineMap.current\<close>, a
  \<^verbatim>\<open>Map\<close> from line numbers to identifiers).
\<close>

record env =
  startLine :: int
  chunkId :: int
  lineMap :: "int \<rightharpoonup> string"

text \<open>
  The renderer object \<^verbatim>\<open>self\<close> handed to every rule. The rules of this module
  call two of its methods, \<^verbatim>\<open>self.renderAttrs(token)\<close> and
  \<^verbatim>\<open>self.renderToken(tokens, idx, options)\<close>; both belong to the rendering
  library and are kept as parameters.
\<close>

record 'o renderer =
  renderAttrs :: "token \<Rightarrow> string"
  renderToken :: "token list \<Rightarrow> nat \<Rightarrow> 'o \<Rightarrow> string"

text \<open>
  An output rule \<^verbatim>\<open>(tokens, idx, options, env, self) => html\<close>. A rule may mutate
  the tokens of the array it is given and the pass context, and it may call
  \<^verbatim>\<open>Math.random\<close>; so the model passes the token array, the context and the
  number of random draws made so far through the rule and returns them updated. A thrown
  exception is the left injection.
\<close>

type_synonym 'o rule =
  "token list \<Rightarrow> nat \<Rightarrow> 'o \<Rightarrow> env \<Rightarrow> 'o renderer \<Rightarrow> nat
     \<Rightarrow> error + (string \<times> token list \<times> env \<times> nat)"

section \<open>JavaScript string primitives used by the module\<close>

text \<open>\<^verbatim>\<open>s.indexOf(c)\<close>: the position of the first occurrence, or \<open>-1\<close>.\<close>

fun indexOf :: "char \<Rightarrow> string \<Rightarrow> int" where
  "indexOf c [] = - 1"
| "indexOf c (x # xs) =
     (if x = c then 0 else (let r = indexOf c xs in if r < 0 then - 1 else r + 1))"

text \<open>
  \<^verbatim>\<open>s.slice(b, e)\<close> and \<^verbatim>\<open>s.slice(b)\<close>: a negative index counts from the end
  of the string, and every index is clamped to the string.
\<close>

definition slice_index :: "nat \<Rightarrow> int \<Rightarrow> nat" where
  "slice_index len i = (if i < 0 then nat (max (int len + i) 0) else min (nat i) len)"

definition slice :: "string \<Rightarrow> int \<Rightarrow> int \<Rightarrow> string" where
  "slice s b e =
     (let from = slice_index (length s) b; to = slice_index (length s) e
      in take (to - from) (drop from s))"

definition slice_from :: "string \<Rightarrow> int \<Rightarrow> string" where
  "slice_from s b = drop (slice_index (length s) b) s"

text \<open>\<^verbatim>\<open>s.startsWith(p)\<close>.\<close>

definition startsWith :: "string \<Rightarrow> string \<Rightarrow> bool" where
  "startsWith s p = (take (length p) s = p)"

text \<open>\<^verbatim>\<open>s.split("\n")\<close>: the segments between line feeds; never an empty array.\<close>

fun split_nl :: "string \<Rightarrow> string list" where
  "split_nl [] = [[]]"
| "split_nl (c # cs) =
     (if c = CHR 0x0A then [] # split_nl cs
      else (case split_nl cs of [] \<Rightarrow> [[c]] | l # ls \<Rightarrow> (c # l) # ls))"

text \<open>\<^verbatim>\<open>lines.join("\n")\<close>.\<close>

fun join_nl :: "string list \<Rightarrow> string" where
  "join_nl [] = []"
| "join_nl [l] = l"
| "join_nl (l # ls) = l @ CHR 0x0A # join_nl ls"

text \<open>
  \<^verbatim>\<open>s.replace(".", "")\<close> with a string pattern: only the first occurrence is
  removed.
\<close>

fun remove_first_dot :: "string \<Rightarrow> string" where
  "remove_first_dot [] = []"
| "remove_first_dot (c # cs) = (if c = CHR ''.'' then cs else c # remove_first_dot cs)"

section \<open>Library functions the module imports\<close>

text \<open>
  Modelled from the spec: \<^verbatim>\<open>escapeHtml\<close> is imported from the rendering library
  (\<^verbatim>\<open>markdown-it/lib/common/utils\<close>) and is not under \<^verbatim>\<open>src/\<close>. It escapes
  content for safe embedding in markup: the four characters \<^verbatim>\<open>& < > "\<close> are
  replaced by their entities, every other character is kept.
\<close>

fun escapeHtml :: "string \<Rightarrow> string" where
  "escapeHtml [] = []"
| "escapeHtml (c # cs) =
     (if c = CHR ''&'' then ''&amp;''
      else if c = CHR ''<'' then ''&lt;''
      else if c = CHR ''>'' then ''&gt;''
      else if c = CHR 0x22 then ''&quot;''
      else [c]) @ escapeHtml cs"

text \<open>
  Modelled from the spec: \<^verbatim>\<open>token.attrSet(name, value)\<close> is a method of the
  library's token class and is not under \<^verbatim>\<open>src/\<close>. The attribute bag is an
  ordered mapping from keys to strings: setting a key that is present replaces its value
  in place, setting a new key appends the pair, and the first attribute creates the bag.
\<close>

fun attrSet_list :: "string \<Rightarrow> string \<Rightarrow> (string \<times> string) list \<Rightarrow> (string \<times> string) list" where
  "attrSet_list name v [] = [(name, v)]"
| "attrSet_list name v (p # ps) =
     (if fst p = name then (name, v) # ps else p # attrSet_list name v ps)"

definition attrSet :: "token \<Rightarrow> string \<Rightarrow> string \<Rightarrow> token" where
  "attrSet t name v =
     set_attrs t (Some (case attrs t of None \<Rightarrow> [(name, v)] | Some a \<Rightarrow> attrSet_list name v a))"

text \<open>The value a token's attribute bag holds under a key.\<close>

definition attrGet :: "token \<Rightarrow> string \<Rightarrow> string option" where
  "attrGet t name = (case attrs t of None \<Rightarrow> None | Some a \<Rightarrow> map_of a name)"

section \<open>Identifiers\<close>

definition SRC_LINE_ID :: string where
  "SRC_LINE_ID = ''data-line-id''"

text \<open>
  \<^verbatim>\<open>randomLineId = () => Math.random().toString().replace(".", "")\<close>.
  The random source is the sequence \<open>rnd\<close> of the strings that the successive calls of
  \<^verbatim>\<open>Math.random().toString()\<close> produce; the state is the number of calls made.
  The result is the identifier and the new number of calls.
\<close>

definition randomLineId :: "(nat \<Rightarrow> string) \<Rightarrow> nat \<Rightarrow> string \<times> nat" where
  "randomLineId rnd n = (remove_first_dot (rnd n), Suc n)"

section \<open>The line annotator\<close>

text \<open>
  The loop over \<^verbatim>\<open>inlineToken.children\<close> (lines 38 to 51). \<open>m\<close> is
  \<^verbatim>\<open>tokens[idx].map\<close>, read only when a child is given a span (reading index 0 of
  \<^verbatim>\<open>null\<close> throws); \<open>lineInParagraph\<close> and \<open>lineUsed\<close> are the two loop
  variables.
\<close>

fun walk_children :: "(int \<times> int) option \<Rightarrow> int \<Rightarrow> bool \<Rightarrow> token list \<Rightarrow> error + token list" where
  "walk_children m lineInParagraph lineUsed [] = Inr []"
| "walk_children m lineInParagraph lineUsed (childToken # rest) =
     (if type_t childToken = ''softbreak'' then
        (case walk_children m (lineInParagraph + 1) False rest of
           Inl e \<Rightarrow> Inl e
         | Inr rest' \<Rightarrow> Inr (childToken # rest'))
      else if \<not> lineUsed then
        (case m of
           None \<Rightarrow> Inl TypeError
         | Some (s, e) \<Rightarrow>
             (case walk_children m lineInParagraph True rest of
                Inl err \<Rightarrow> Inl err
              | Inr rest' \<Rightarrow>
                  Inr (set_map_t childToken (Some (s + lineInParagraph, s + lineInParagraph + 1))
                         # rest')))
      else
        (case walk_children m lineInParagraph lineUsed rest of
           Inl e \<Rightarrow> Inl e
         | Inr rest' \<Rightarrow> Inr (childToken # rest')))"

definition inlineContainers :: "string list" where
  "inlineContainers = [''paragraph_open'', ''heading_open'']"

text \<open>
  Lines 35 to 57 of \<^verbatim>\<open>addLineNumberToTokens\<close>: the annotation that runs before the
  wrapped rule. Reading \<^verbatim>\<open>tokens[idx].type\<close> beyond the array,
  \<^verbatim>\<open>tokens[idx + 1].children\<close> beyond the array and iterating
  \<^verbatim>\<open>null\<close> children all throw.
\<close>

definition annotate :: "(nat \<Rightarrow> string) \<Rightarrow> token list \<Rightarrow> nat \<Rightarrow> env \<Rightarrow> nat
    \<Rightarrow> error + (token list \<times> env \<times> nat)" where
  "annotate rnd tokens idx env n =
     (if idx \<ge> length tokens then Inl TypeError
      else if type_t (tokens ! idx) \<in> set inlineContainers then
        (if idx + 1 \<ge> length tokens then Inl TypeError
         else
           (let inlineToken = tokens ! (idx + 1) in
            case children inlineToken of
              None \<Rightarrow> Inl TypeError
            | Some cs \<Rightarrow>
                (case walk_children (map_t (tokens ! idx)) 0 False cs of
                   Inl e \<Rightarrow> Inl e
                 | Inr cs' \<Rightarrow>
                     Inr (tokens[idx + 1 := set_children inlineToken (Some cs')], env, n))))
      else
        (case map_t (tokens ! idx) of
           Some (s, e) \<Rightarrow>
             (let line = s + startLine env - (if chunkId env \<noteq> 0 then 1 else 0);
                  (ident, n') = randomLineId rnd n
              in Inr (tokens[idx := attrSet (tokens ! idx) SRC_LINE_ID ident],
                      env\<lparr>lineMap := (lineMap env)(line \<mapsto> ident)\<rparr>,
                      n'))
         | None \<Rightarrow> Inr (tokens, env, n)))"

text \<open>
  \<^verbatim>\<open>addLineNumberToTokens(defaultRule)\<close>: annotate, then run the rule that existed
  for the token type, or the renderer's generic \<^verbatim>\<open>renderToken\<close> when there was
  none (\<^verbatim>\<open>defaultRule\<close> undefined).
\<close>

definition addLineNumberToTokens :: "(nat \<Rightarrow> string) \<Rightarrow> 'o rule option \<Rightarrow> 'o rule" where
  "addLineNumberToTokens rnd defaultRule tokens idx options env self n =
     (case annotate rnd tokens idx env n of
        Inl e \<Rightarrow> Inl e
      | Inr (tokens', env', n') \<Rightarrow>
          (case defaultRule of
             Some r \<Rightarrow> r tokens' idx options env' self n'
           | None \<Rightarrow> Inr (renderToken self tokens' idx options, tokens', env', n')))"

section \<open>The directive attribute patcher\<close>

text \<open>
  \<^verbatim>\<open>newRule(defaultRule)\<close> of \<^verbatim>\<open>overrideDefaultDirectives\<close> (lines 71 to 79).
  Calling an undefined \<^verbatim>\<open>defaultRule\<close> throws, and so does rendering the
  attributes of \<^verbatim>\<open>tokens[idx]\<close> beyond the array. The rule takes the token
  object before the original rule runs and renders its attributes afterwards; rules mutate
  token objects in place, so these are the attributes of the token at \<open>idx\<close> in the
  array that the original rule hands back.
\<close>

definition newRule :: "'o rule option \<Rightarrow> 'o rule" where
  "newRule defaultRule tokens idx options env self n =
     (case defaultRule of
        None \<Rightarrow> Inl TypeError
      | Some r \<Rightarrow>
          (case r tokens idx options env self n of
             Inl e \<Rightarrow> Inl e
           | Inr (html, tokens', env', n') \<Rightarrow>
               (if idx \<ge> length tokens' then Inl TypeError
                else
                  (let token = tokens' ! idx;
                       asideCloseIdx = indexOf CHR ''>'' html
                   in Inr (slice html 0 asideCloseIdx @ renderAttrs self token
                             @ slice_from html asideCloseIdx,
                           tokens', env', n')))))"

section \<open>The span wrapping adapters\<close>

text \<open>
  The rule that \<^verbatim>\<open>wrapTextInSpan\<close> installs for text tokens (lines 88 to 93). As in
  \<open>newRule\<close>, the attributes are rendered after the original rule has run.
\<close>

definition wrapTextInSpan_rule :: "'o rule option \<Rightarrow> 'o rule" where
  "wrapTextInSpan_rule defaultTextRule tokens idx options env self n =
     (case defaultTextRule of
        None \<Rightarrow> Inl TypeError
      | Some r \<Rightarrow>
          (case r tokens idx options env self n of
             Inl e \<Rightarrow> Inl e
           | Inr (defaultOutput, tokens', env', n') \<Rightarrow>
               (if idx \<ge> length tokens' then Inl TypeError
                else
                  (let token = tokens' ! idx
                   in Inr (''<span'' @ renderAttrs self token @ ''>'' @ defaultOutput @ ''</span>'',
                           tokens', env', n')))))"

text \<open>
  \<^verbatim>\<open>.filter((_, i, lines) => i !== lines.length - 1)\<close>: every element but the one at
  the last index.
\<close>

definition filter_not_last :: "'a list \<Rightarrow> 'a list" where
  "filter_not_last lines =
     map snd (filter (\<lambda>(i, _). int i \<noteq> int (length lines) - 1) (zip [0..<length lines] lines))"

text \<open>
  The callback of \<^verbatim>\<open>.map((l, i) => ...)\<close> (lines 117 to 121), run over the lines
  from index \<open>i\<close> on: each line mints an identifier, records it in the line map at
  \<open>startLine + i + 1\<close> and is wrapped in a span that bears it.
\<close>

fun wrap_lines :: "(nat \<Rightarrow> string) \<Rightarrow> int \<Rightarrow> nat \<Rightarrow> string list \<Rightarrow> (int \<rightharpoonup> string) \<Rightarrow> nat
    \<Rightarrow> string list \<times> (int \<rightharpoonup> string) \<times> nat" where
  "wrap_lines rnd startLn i [] lm n = ([], lm, n)"
| "wrap_lines rnd startLn i (l # ls) lm n =
     (let (ident, n') = randomLineId rnd n;
          lm' = lm(startLn + int i + 1 \<mapsto> ident);
          (rest, lm'', n'') = wrap_lines rnd startLn (i + 1) ls lm' n'
      in ((''<span '' @ SRC_LINE_ID @ ''='' @ [CHR 0x22] @ ident @ [CHR 0x22] @ ''>'' @ l @ ''</span>'')
            # rest, lm'', n''))"

text \<open>
  The rule that \<^verbatim>\<open>wrapFencedLinesInSpan\<close> installs for fence tokens (lines 100 to
  125). The original rule runs first and its output is only inspected for the verbatim
  prefix. Reading \<^verbatim>\<open>token.map[0]\<close> of a token without a span throws.
\<close>

definition wrapFencedLinesInSpan_rule :: "(nat \<Rightarrow> string) \<Rightarrow> 'o rule option \<Rightarrow> 'o rule" where
  "wrapFencedLinesInSpan_rule rnd defaultFenceRule tokens idx options env self n =
     (case defaultFenceRule of
        None \<Rightarrow> Inl TypeError
      | Some r \<Rightarrow>
          (case r tokens idx options env self n of
             Inl e \<Rightarrow> Inl e
           | Inr (defaultOutput, tokens', env', n') \<Rightarrow>
               (if idx \<ge> length tokens' then Inl TypeError
                else
                  (let token = tokens' ! idx in
                   if \<not> startsWith defaultOutput ''<pre'' then
                     (let closeIdx = indexOf CHR ''>'' defaultOutput;
                          start = slice defaultOutput 0 closeIdx;
                          end = slice_from defaultOutput closeIdx
                      in Inr (start @ '' '' @ renderAttrs self token @ end, tokens', env', n'))
                   else
                     (let sanitizedContent = escapeHtml (content token) in
                      case map_t token of
                        None \<Rightarrow> Inl TypeError
                      | Some (s, e) \<Rightarrow>
                          (let startLn = s + startLine env' - (if chunkId env' \<noteq> 0 then 1 else 0);
                               (spans, lm, n'') =
                                 wrap_lines rnd startLn 0
                                   (filter_not_last (split_nl sanitizedContent)) (lineMap env') n';
                               htmlContent = join_nl spans
                           in Inr (''<pre><code'' @ renderAttrs self token @ ''>'' @ htmlContent
                                     @ ''</code></pre>'' @ [CHR 0x0A],
                                   tokens', env'\<lparr>lineMap := lm\<rparr>, n'')))))))"

section \<open>Installation\<close>

text \<open>
  The rule registry \<^verbatim>\<open>md.renderer.rules\<close> is an object whose keys are token types:
  an association list with distinct keys, in insertion order. Assigning to a key replaces
  the rule in place or appends a new entry.
\<close>

type_synonym 'o rules = "(string \<times> 'o rule) list"

definition overrideDefaultDirectives :: "'o rules \<Rightarrow> 'o rules" where
  "overrideDefaultDirectives rules =
     (let rules1 = AList.update ''directive'' (newRule (map_of rules ''directive'')) rules
      in AList.update ''directive_error'' (newRule (map_of rules1 ''directive_error'')) rules1)"

definition wrapTextInSpan :: "'o rules \<Rightarrow> 'o rules" where
  "wrapTextInSpan rules =
     AList.update ''text'' (wrapTextInSpan_rule (map_of rules ''text'')) rules"

definition wrapFencedLinesInSpan :: "(nat \<Rightarrow> string) \<Rightarrow> 'o rules \<Rightarrow> 'o rules" where
  "wrapFencedLinesInSpan rnd rules =
     AList.update ''fence'' (wrapFencedLinesInSpan_rule rnd (map_of rules ''fence'')) rules"

definition excludeRules :: "string list" where
  "excludeRules = [''softbreak'']"

definition overrideRules :: "'o rules \<Rightarrow> string list" where
  "overrideRules rules =
     filter (\<lambda>r. r \<notin> set excludeRules) (map fst rules)
       @ [''paragraph_open'', ''heading_open'', ''admonition_open'', ''link_open'']"

text \<open>\<^verbatim>\<open>markdownSourceMap(md)\<close> (lines 8 to 26), as a function of the registry.\<close>

definition markdownSourceMap :: "(nat \<Rightarrow> string) \<Rightarrow> 'o rules \<Rightarrow> 'o rules" where
  "markdownSourceMap rnd rules =
     (let rules1 = wrapFencedLinesInSpan rnd (wrapTextInSpan (overrideDefaultDirectives rules))
      in foldl (\<lambda>rs rule. AList.update rule (addLineNumberToTokens rnd (map_of rs rule)) rs)
           rules1 (overrideRules rules1))"

section \<open>The rendering pass\<close>

text \<open>
  Modelled from the spec: the pass that drives the rules belongs to the rendering library
  (its \<^verbatim>\<open>render\<close> and \<^verbatim>\<open>renderInline\<close>) and is not under \<^verbatim>\<open>src/\<close>.
  Rendering goes token by token in stream order; each token is rendered by the rule
  registered for its type, or by generic default rendering when there is none; the
  children of an inline token are rendered in order in the same way, later in the same
  pass than the container that precedes it. The outputs are concatenated.
\<close>

definition dispatch :: "'o rules \<Rightarrow> 'o rule" where
  "dispatch rules tokens i options env self n =
     (if i \<ge> length tokens then Inl TypeError
      else
        (case map_of rules (type_t (tokens ! i)) of
           Some r \<Rightarrow> r tokens i options env self n
         | None \<Rightarrow> Inr (renderToken self tokens i options, tokens, env, n)))"

fun run_rules :: "(nat \<Rightarrow> token list \<Rightarrow> env \<Rightarrow> nat \<Rightarrow> error + (string \<times> token list \<times> env \<times> nat))
    \<Rightarrow> nat list \<Rightarrow> string \<Rightarrow> token list \<Rightarrow> env \<Rightarrow> nat
    \<Rightarrow> error + (string \<times> token list \<times> env \<times> nat)" where
  "run_rules step [] result tokens env n = Inr (result, tokens, env, n)"
| "run_rules step (i # is) result tokens env n =
     (case step i tokens env n of
        Inl e \<Rightarrow> Inl e
      | Inr (out, tokens', env', n') \<Rightarrow> run_rules step is (result @ out) tokens' env' n')"

definition renderInline :: "'o rules \<Rightarrow> token list \<Rightarrow> 'o \<Rightarrow> env \<Rightarrow> 'o renderer \<Rightarrow> nat
    \<Rightarrow> error + (string \<times> token list \<times> env \<times> nat)" where
  "renderInline rules tokens options env self n =
     run_rules (\<lambda>i toks e k. dispatch rules toks i options e self k)
       [0..<length tokens] [] tokens env n"

definition render_step :: "'o rules \<Rightarrow> 'o rule" where
  "render_step rules tokens i options env self n =
     (if i \<ge> length tokens then Inl TypeError
      else if type_t (tokens ! i) = ''inline'' then
        (case children (tokens ! i) of
           None \<Rightarrow> Inl TypeError
         | Some cs \<Rightarrow>
             (case renderInline rules cs options env self n of
                Inl e \<Rightarrow> Inl e
              | Inr (out, cs', env', n') \<Rightarrow>
                  Inr (out, tokens[i := set_children (tokens ! i) (Some cs')], env', n')))
      else dispatch rules tokens i options env self n)"

definition render :: "'o rules \<Rightarrow> token list \<Rightarrow> 'o \<Rightarrow> env \<Rightarrow> 'o renderer \<Rightarrow> nat
    \<Rightarrow> error + (string \<times> token list \<times> env \<times> nat)" where
  "render rules tokens options env self n =
     run_rules (\<lambda>i toks e k. render_step rules toks i options e self k)
       [0..<length tokens] [] tokens env n"

text \<open>
  A rule of the library that only produces output: it reads its arguments and changes
  neither the tokens, nor the pass context, nor the random source.
\<close>

definition pure_rule :: "(token list \<Rightarrow> nat \<Rightarrow> 'o \<Rightarrow> env \<Rightarrow> 'o renderer \<Rightarrow> string) \<Rightarrow> 'o rule" where
  "pure_rule f tokens idx options env self n = Inr (f tokens idx options env self, tokens, env, n)"

section \<open>Notions used to state the properties\<close>

text \<open>The number of line breaks among the first \<open>j\<close> children: the visual line of child \<open>j\<close>.\<close>

definition breaks_before :: "nat \<Rightarrow> token list \<Rightarrow> nat" where
  "breaks_before j cs = length (filter (\<lambda>c. type_t c = ''softbreak'') (take j cs))"

text \<open>
  Child \<open>j\<close> is the first child that is not a line break on its visual line: it is not
  a line break, and it is the first child (with the claimed flag clear) or follows a line
  break.
\<close>

definition leads_line :: "bool \<Rightarrow> nat \<Rightarrow> token list \<Rightarrow> bool" where
  "leads_line used j cs =
     (type_t (cs ! j) \<noteq> ''softbreak'' \<and>
      (if j = 0 then \<not> used else type_t (cs ! (j - 1)) = ''softbreak''))"

text \<open>The element that wraps one line of a verbatim block.\<close>

definition span_line :: "string \<Rightarrow> string \<Rightarrow> string" where
  "span_line ident l =
     ''<span '' @ SRC_LINE_ID @ ''='' @ [CHR 0x22] @ ident @ [CHR 0x22] @ ''>'' @ l @ ''</span>''"

text \<open>The correction for chunks after the first: \<^verbatim>\<open>(env.chunkId !== 0)\<close> as a number.\<close>

definition chunkCorrection :: "env \<Rightarrow> int" where
  "chunkCorrection env = (if chunkId env \<noteq> 0 then 1 else 0)"

text \<open>
  A registry is well formed when its keys are distinct, as the keys of an object are, and
  none of the four container types that the installation adds has a rule of its own yet.
\<close>

definition well_formed_rules :: "'o rules \<Rightarrow> bool" where
  "well_formed_rules rules \<longleftrightarrow>
     distinct (map fst rules) \<and>
     set (map fst rules)
       \<inter> {''paragraph_open'', ''heading_open'', ''admonition_open'', ''link_open''} = {}"

text \<open>
  The registry of a renderer whose own rules only produce output: each rule of the
  library is given by the function that computes its output.
\<close>

definition library_rules ::
  "(string \<times> (token list \<Rightarrow> nat \<Rightarrow> 'o \<Rightarrow> env \<Rightarrow> 'o renderer \<Rightarrow> string)) list \<Rightarrow> 'o rules" where
  "library_rules fs = map (\<lambda>(k, f). (k, pure_rule f)) fs"

text \<open>
  The absolute line that a token claims (line 53): none when the token has no span.
\<close>

definition claimed_line :: "env \<Rightarrow> token \<Rightarrow> int option" where
  "claimed_line env t =
     (case map_t t of
        None \<Rightarrow> None
      | Some (s, e) \<Rightarrow> Some (s + startLine env - (if chunkId env \<noteq> 0 then 1 else 0)))"

text \<open>The number of tokens with a span among the first \<open>i\<close> tokens of a stream.\<close>

definition spans_before :: "nat \<Rightarrow> token list \<Rightarrow> nat" where
  "spans_before i tokens = length (filter (\<lambda>t. map_t t \<noteq> None) (take i tokens))"

text \<open>
  A token is plainly rendered under a registry when the installation wraps the rule of its
  type with the annotator and nothing else: the type has a rule in the registry or is one
  of the two block openings that the installation adds, and it is neither a line break, nor
  an inline token, nor a type with an adapter of its own, nor an inline container.
\<close>

definition plainly_rendered :: "'o rules \<Rightarrow> token \<Rightarrow> bool" where
  "plainly_rendered rules t \<longleftrightarrow>
     type_t t \<in> set (map fst rules) \<union> {''admonition_open'', ''link_open''} \<and>
     type_t t \<notin> {''softbreak'', ''inline'', ''text'', ''fence'', ''directive'', ''directive_error'',
                  ''paragraph_open'', ''heading_open''}"

text \<open>
  A rule keeps the entries of the line map when every line that has an entry before the
  rule runs still has one afterwards.
\<close>

definition keeps_entries :: "'o rule \<Rightarrow> bool" where
  "keeps_entries r \<longleftrightarrow>
     (\<forall>tokens idx options env self n out tokens' env' n'.
        r tokens idx options env self n = Inr (out, tokens', env', n')
          \<longrightarrow> dom (lineMap env) \<subseteq> dom (lineMap env'))"

text \<open>
  Two token arrays of the same length agree on their line breaks: every token keeps its
  type, and a line break token keeps its attribute bag and its span.
\<close>

definition breaks_kept :: "token list \<Rightarrow> token list \<Rightarrow> bool" where
  "breaks_kept ts ts' \<longleftrightarrow>
     length ts' = length ts \<and>
     (\<forall>j<length ts. type_t (ts' ! j) = type_t (ts ! j) \<and>
        (type_t (ts ! j) = ''softbreak'' \<longrightarrow>
           attrs (ts' ! j) = attrs (ts ! j) \<and> map_t (ts' ! j) = map_t (ts ! j)))"

text \<open>
  A pass keeps the line breaks of a stream: the stream and the children of each of its
  tokens agree on their line breaks before and after.
\<close>

definition tokens_kept :: "token list \<Rightarrow> token list \<Rightarrow> bool" where
  "tokens_kept ts ts' \<longleftrightarrow>
     breaks_kept ts ts' \<and>
     (\<forall>j<length ts. \<forall>cs. children (ts ! j) = Some cs \<longrightarrow>
        (\<exists>cs'. children (ts' ! j) = Some cs' \<and> breaks_kept cs cs'))"

text \<open>
  A rule spares line breaks when, run on a token that is not a line break, it keeps the
  line breaks of the array it is given.
\<close>

definition spares_breaks :: "'o rule \<Rightarrow> bool" where
  "spares_breaks r \<longleftrightarrow>
     (\<forall>tokens idx options env self n out tokens' env' n'.
        r tokens idx options env self n = Inr (out, tokens', env', n')
          \<and> type_t (tokens ! idx) \<noteq> ''softbreak''
          \<longrightarrow> tokens_kept tokens tokens')"









section \<open>Concrete inputs for the examples\<close>

text \<open>
  The paragraph that starts at relative line \<open>s\<close> and whose inline content is the
  children \<open>cs\<close>: the container's opening token, the inline token, the closing token.
\<close>

definition paragraph_tokens :: "int \<Rightarrow> token list \<Rightarrow> token list" where
  "paragraph_tokens s cs =
     [Token ''paragraph_open'' (Some (s, s + 1 + int (breaks_before (length cs) cs))) None None [],
      Token ''inline'' (Some (s, s + 1 + int (breaks_before (length cs) cs))) (Some cs) None [],
      Token ''paragraph_close'' None None None []]"

definition text_token :: "string \<Rightarrow> token" where
  "text_token c = Token ''text'' None None None c"

definition softbreak_token :: token where
  "softbreak_token = Token ''softbreak'' None None None []"

text \<open>The children of the paragraph \<^verbatim>\<open>"Line1\nLine2\nLine3"\<close>.\<close>

definition three_lines :: "token list" where
  "three_lines =
     [text_token ''Line1'', softbreak_token, text_token ''Line2'', softbreak_token,
      text_token ''Line3'']"


text \<open>
  A registry with the two rules that a paragraph of text needs: the library renders a
  text run from its content and a line break without reading the token.
\<close>

definition text_rules :: "(string \<Rightarrow> string) \<Rightarrow> string \<Rightarrow> 'o rules" where
  "text_rules ftext br =
     library_rules
       [(''text'', \<lambda>tokens idx options env self. ftext (content (tokens ! idx))),
        (''softbreak'', \<lambda>tokens idx options env self. br)]"

text \<open>
  The registry with the library's two rules for raw markup, in blocks and inline: each
  returns the content of the token as it is.
\<close>

definition raw_html_rules :: "'o rules" where
  "raw_html_rules =
     library_rules
       [(''html_block'', \<lambda>tokens idx options env self. content (tokens ! idx)),
        (''html_inline'', \<lambda>tokens idx options env self. content (tokens ! idx))]"

text \<open>
  A renderer, a random source and a pass context to run the examples with. The renderer
  writes attributes the way the library does: a blank, the escaped name, an equals sign
  and the escaped value in quotes; its generic token rendering is an opening tag named
  after the token type.
\<close>

definition example_renderAttrs :: "token \<Rightarrow> string" where
  "example_renderAttrs t =
     (case attrs t of
        None \<Rightarrow> []
      | Some a \<Rightarrow>
          concat (map (\<lambda>(k, v). '' '' @ escapeHtml k @ ''='' @ [CHR 0x22] @ escapeHtml v @ [CHR 0x22]) a))"

definition example_renderer :: "unit renderer" where
  "example_renderer =
     \<lparr>renderAttrs = example_renderAttrs,
      renderToken = (\<lambda>tokens idx options.
         ''<'' @ type_t (tokens ! idx) @ example_renderAttrs (tokens ! idx) @ ''>'')\<rparr>"

definition example_random :: "nat \<Rightarrow> string" where
  "example_random k = ''0.'' @ replicate (Suc k) CHR ''7''"

text \<open>A random source that yields the same number at every call.\<close>

definition constant_random :: "nat \<Rightarrow> string" where
  "constant_random k = ''0.5''"

definition example_env :: "int \<Rightarrow> int \<Rightarrow> env" where
  "example_env start chunk = \<lparr>startLine = start, chunkId = chunk, lineMap = Map.empty\<rparr>"

text \<open>
  The output of the library's own rule for a verbatim block without a language tag: the
  escaped content inside the block's outer wrapper.
\<close>

definition example_fence_output ::
  "token list \<Rightarrow> nat \<Rightarrow> unit \<Rightarrow> env \<Rightarrow> unit renderer \<Rightarrow> string" where
  "example_fence_output tokens idx options env self =
     ''<pre><code'' @ renderAttrs self (tokens ! idx) @ ''>'' @ escapeHtml (content (tokens ! idx))
       @ ''</code></pre>'' @ [CHR 0x0A]"

text \<open>
  A verbatim block with four content lines (the third one empty) whose opening fence is
  at line 5 and whose closing fence is at line 10.
\<close>

definition four_line_fence :: token where
  "four_line_fence =
     Token ''fence'' (Some (5, 11)) None None
       (''a<b'' @ [CHR 0x0A] @ ''c'' @ [CHR 0x0A] @ [CHR 0x0A] @ ''d'' @ [CHR 0x0A])"

text \<open>
  A verbatim block with exactly four content lines whose opening fence is at line 5 and
  which the end of the document closes: the fourth line has no line break.
\<close>

definition four_line_unclosed_fence :: token where
  "four_line_unclosed_fence =
     Token ''fence'' (Some (5, 10)) None None
       (''a'' @ [CHR 0x0A] @ ''b'' @ [CHR 0x0A] @ ''c'' @ [CHR 0x0A] @ ''d'')"

text \<open>
  A verbatim block that the end of the document closes: its last content line has no
  line break.
\<close>

definition unterminated_fence :: token where
  "unterminated_fence = Token ''fence'' (Some (0, 3)) None None (''a'' @ [CHR 0x0A] @ ''bc'')"

text \<open>
  The output of an extension that uses the verbatim rule to draw a diagram: it does not
  start with the verbatim prefix.
\<close>

definition diagram_output ::
  "token list \<Rightarrow> nat \<Rightarrow> unit \<Rightarrow> env \<Rightarrow> unit renderer \<Rightarrow> string" where
  "diagram_output tokens idx options env self =
     ''<div class=mermaid>'' @ escapeHtml (content (tokens ! idx)) @ ''</div>''"

text \<open>
  The output of the generic directive rule for a directive of an unknown kind: an aside
  element around the directive's content, without the token's attributes.
\<close>

definition unknown_directive_output ::
  "token list \<Rightarrow> nat \<Rightarrow> unit \<Rightarrow> env \<Rightarrow> unit renderer \<Rightarrow> string" where
  "unknown_directive_output tokens idx options env self =
     ''<aside class=directive-unhandled><pre>'' @ escapeHtml (content (tokens ! idx))
       @ ''</pre></aside>''"

section \<open>Basic facts\<close>

lemma map_of_attrSet_list: "map_of (attrSet_list name v a) name = Some v"
  by (induction a) auto

lemma attrGet_attrSet: "attrGet (attrSet t name v) name = Some v"
  by (simp add: attrGet_def attrSet_def set_attrs_def map_of_attrSet_list split: option.splits)

lemma attrSet_fields:
  "type_t (attrSet t name v) = type_t t" "map_t (attrSet t name v) = map_t t"
  "children (attrSet t name v) = children t" "content (attrSet t name v) = content t"
  by (simp_all add: attrSet_def set_attrs_def)

lemma indexOf_notin: "c \<notin> set s \<Longrightarrow> indexOf c s = - 1"
  by (induction s) (auto simp: Let_def)

lemma indexOf_ge: "- 1 \<le> indexOf c s"
  by (induction s) (auto simp: Let_def)

lemma indexOf_in:
  "c \<in> set s \<Longrightarrow> 0 \<le> indexOf c s \<and> nat (indexOf c s) < length s
     \<and> s ! nat (indexOf c s) = c \<and> c \<notin> set (take (nat (indexOf c s)) s)"
proof (induction s)
  case Nil
  then show ?case by simp
next
  case (Cons x xs)
  show ?case
  proof (cases "x = c")
    case True
    then show ?thesis by simp
  next
    case False
    with Cons.prems have "c \<in> set xs" by simp
    from Cons.IH[OF this] False show ?thesis
      by (auto simp: Let_def nat_add_distrib)
  qed
qed

lemma slice_take: "0 \<le> i \<Longrightarrow> slice s 0 i = take (nat i) s"
  by (simp add: slice_def slice_index_def Let_def min_def)

lemma slice_from_drop: "0 \<le> i \<Longrightarrow> slice_from s i = drop (nat i) s"
  by (simp add: slice_from_def slice_index_def min_def)

lemma slice_neg1: "slice s 0 (- 1) = take (length s - 1) s"
  by (simp add: slice_def slice_index_def Let_def max_def nat_diff_distrib)

lemma slice_from_neg1: "slice_from s (- 1) = drop (length s - 1) s"
  by (simp add: slice_from_def slice_index_def max_def nat_diff_distrib)

lemma split_nl_nonempty: "split_nl s \<noteq> []"
  by (induction s) (auto split: list.splits)

lemma filter_not_last_butlast: "filter_not_last xs = butlast xs"
proof (induction xs rule: rev_induct)
  case Nil
  then show ?case by (simp add: filter_not_last_def)
next
  case (snoc x xs)
  have "filter (\<lambda>(i, _). int i \<noteq> int (length xs)) (zip [0..<length xs] xs) = zip [0..<length xs] xs"
    by (rule filter_True) (auto simp: set_zip)
  then show ?case
    by (simp add: filter_not_last_def)
qed

lemma split_nl_escapeHtml: "split_nl (escapeHtml s) = map escapeHtml (split_nl s)"
proof (induction s)
  case Nil
  then show ?case by simp
next
  case (Cons c cs)
  then show ?case
    using split_nl_nonempty[of cs]
    by (cases "split_nl cs") auto
qed

lemma split_nl_line:
  "CHR 0x0A \<notin> set l \<Longrightarrow> split_nl (l @ CHR 0x0A # rest) = l # split_nl rest"
  by (induction l) auto

lemma split_nl_last_line: "CHR 0x0A \<notin> set l \<Longrightarrow> split_nl l = [l]"
  by (induction l) auto

lemma split_nl_lines:
  "\<forall>l\<in>set ls. CHR 0x0A \<notin> set l \<Longrightarrow>
     split_nl (concat (map (\<lambda>l. l @ [CHR 0x0A]) ls) @ final) = ls @ split_nl final"
  by (induction ls) (auto simp: split_nl_line)

lemma walk_children_spanned:
  "\<exists>cs'. walk_children (Some (s, e)) k u cs = Inr cs' \<and> length cs' = length cs \<and>
     (\<forall>j<length cs. cs' ! j =
        (if leads_line u j cs
         then set_map_t (cs ! j) (Some (s + k + int (breaks_before j cs), s + k + int (breaks_before j cs) + 1))
         else cs ! j))"
proof (induction cs arbitrary: k u)
  case Nil
  then show ?case by simp
next
  case (Cons c rest)
  let ?k' = "if type_t c = ''softbreak'' then k + 1 else k"
  let ?u' = "type_t c \<noteq> ''softbreak''"
  from Cons.IH[of ?k' ?u'] obtain rest' where
    w: "walk_children (Some (s, e)) ?k' ?u' rest = Inr rest'" and
    len: "length rest' = length rest" and
    nth: "\<And>j. j < length rest \<Longrightarrow> rest' ! j =
        (if leads_line ?u' j rest
         then set_map_t (rest ! j) (Some (s + ?k' + int (breaks_before j rest), s + ?k' + int (breaks_before j rest) + 1))
         else rest ! j)"
    by blast
  let ?c' = "if leads_line u 0 (c # rest) then set_map_t c (Some (s + k, s + k + 1)) else c"
  have eq: "walk_children (Some (s, e)) k u (c # rest) = Inr (?c' # rest')"
    using w by (auto simp: leads_line_def)
  have "(?c' # rest') ! j =
        (if leads_line u j (c # rest)
         then set_map_t ((c # rest) ! j) (Some (s + k + int (breaks_before j (c # rest)), s + k + int (breaks_before j (c # rest)) + 1))
         else (c # rest) ! j)" if j: "j < length (c # rest)" for j
  proof (cases j)
    case 0
    then show ?thesis by (simp add: breaks_before_def)
  next
    case (Suc j')
    with j have j': "j' < length rest" by simp
    have ll: "leads_line u (Suc j') (c # rest) = leads_line ?u' j' rest"
      by (cases j') (auto simp: leads_line_def)
    have bb: "s + k + int (breaks_before (Suc j') (c # rest)) = s + ?k' + int (breaks_before j' rest)"
      by (simp add: breaks_before_def)
    have "(?c' # rest') ! Suc j' = rest' ! j'" by simp
    also note nth[OF j']
    also have "(if leads_line ?u' j' rest
         then set_map_t (rest ! j') (Some (s + ?k' + int (breaks_before j' rest), s + ?k' + int (breaks_before j' rest) + 1))
         else rest ! j') =
        (if leads_line u (Suc j') (c # rest)
         then set_map_t ((c # rest) ! Suc j') (Some (s + k + int (breaks_before (Suc j') (c # rest)), s + k + int (breaks_before (Suc j') (c # rest)) + 1))
         else (c # rest) ! Suc j')"
      by (simp only: ll bb nth_Cons_Suc)
    finally show ?thesis unfolding Suc .
  qed
  with eq len show ?case by simp
qed


lemma wrap_lines_eq:
  "wrap_lines rnd sl i ls lm n =
     (map (\<lambda>j. span_line (fst (randomLineId rnd (n + j))) (ls ! j)) [0..<length ls],
      (\<lambda>k. if sl + int i + 1 \<le> k \<and> k < sl + int i + 1 + int (length ls)
            then Some (fst (randomLineId rnd (n + nat (k - (sl + int i + 1)))))
            else lm k),
      n + length ls)"
proof (induction ls arbitrary: i lm n)
  case Nil
  then show ?case by (auto simp: fun_eq_iff)
next
  case (Cons l ls)
  have m: "map (\<lambda>j. span_line (fst (randomLineId rnd (n + j))) ((l # ls) ! j)) [0..<length (l # ls)]
      = span_line (fst (randomLineId rnd n)) l
          # map (\<lambda>j. span_line (fst (randomLineId rnd (Suc n + j))) (ls ! j)) [0..<length ls]"
    by (simp add: map_upt_Suc del: upt_Suc)
  have f: "(\<lambda>k. if sl + int (i + 1) + 1 \<le> k \<and> k < sl + int (i + 1) + 1 + int (length ls)
            then Some (fst (randomLineId rnd (Suc n + nat (k - (sl + int (i + 1) + 1)))))
            else (lm(sl + int i + 1 \<mapsto> fst (randomLineId rnd n))) k)
     = (\<lambda>k. if sl + int i + 1 \<le> k \<and> k < sl + int i + 1 + int (length (l # ls))
            then Some (fst (randomLineId rnd (n + nat (k - (sl + int i + 1)))))
            else lm k)"
  proof (rule ext)
    fix k
    show "(if sl + int (i + 1) + 1 \<le> k \<and> k < sl + int (i + 1) + 1 + int (length ls)
            then Some (fst (randomLineId rnd (Suc n + nat (k - (sl + int (i + 1) + 1)))))
            else (lm(sl + int i + 1 \<mapsto> fst (randomLineId rnd n))) k)
     = (if sl + int i + 1 \<le> k \<and> k < sl + int i + 1 + int (length (l # ls))
            then Some (fst (randomLineId rnd (n + nat (k - (sl + int i + 1)))))
            else lm k)"
    proof (cases "k = sl + int i + 1")
      case True
      then show ?thesis by simp
    next
      case False
      show ?thesis
      proof (cases "sl + int (i + 1) + 1 \<le> k \<and> k < sl + int (i + 1) + 1 + int (length ls)")
        case True
        then have a: "sl + int i + 1 \<le> k \<and> k < sl + int i + 1 + int (length (l # ls))"
          by simp
        from True have e: "Suc n + nat (k - (sl + int (i + 1) + 1)) = n + nat (k - (sl + int i + 1))"
          by arith
        show ?thesis by (simp only: True a e if_True simp_thms)
      next
        case F2: False
        with False have a: "\<not> (sl + int i + 1 \<le> k \<and> k < sl + int i + 1 + int (length (l # ls)))"
          by auto
        from False show ?thesis by (simp only: F2 a if_False fun_upd_apply simp_thms)
      qed
    qed
  qed
  have IH: "wrap_lines rnd sl (i + 1) ls (lm(sl + int i + 1 \<mapsto> fst (randomLineId rnd n))) (Suc n) =
     (map (\<lambda>j. span_line (fst (randomLineId rnd (Suc n + j))) (ls ! j)) [0..<length ls],
      (\<lambda>k. if sl + int (i + 1) + 1 \<le> k \<and> k < sl + int (i + 1) + 1 + int (length ls)
            then Some (fst (randomLineId rnd (Suc n + nat (k - (sl + int (i + 1) + 1)))))
            else (lm(sl + int i + 1 \<mapsto> fst (randomLineId rnd n))) k),
      Suc n + length ls)"
    by (rule Cons.IH)
  have step: "wrap_lines rnd sl i (l # ls) lm n =
     (case wrap_lines rnd sl (i + 1) ls (lm(sl + int i + 1 \<mapsto> fst (randomLineId rnd n))) (Suc n) of
        (rest, lm'', n'') \<Rightarrow> (span_line (fst (randomLineId rnd n)) l # rest, lm'', n''))"
    by (simp add: randomLineId_def span_line_def Let_def)
  show ?case
    unfolding step IH m f by simp
qed

lemma foldl_update_other:
  "k \<notin> set ks \<Longrightarrow>
     map_of (foldl (\<lambda>rs r. AList.update r (G (map_of rs r)) rs) rules ks) k = map_of rules k"
  by (induction ks arbitrary: rules) (auto simp: update_conv')

lemma foldl_update_hit:
  "distinct ks \<Longrightarrow> k \<in> set ks \<Longrightarrow>
     map_of (foldl (\<lambda>rs r. AList.update r (G (map_of rs r)) rs) rules ks) k = Some (G (map_of rules k))"
proof (induction ks arbitrary: rules)
  case Nil
  then show ?case by simp
next
  case (Cons a ks)
  show ?case
  proof (cases "k = a")
    case True
    with Cons.prems have "k \<notin> set ks" by simp
    then show ?thesis
      using True by (simp add: foldl_update_other update_conv')
  next
    case False
    with Cons.prems have "k \<in> set ks" "distinct ks" by simp_all
    from Cons.IH[OF this(2) this(1)] False show ?thesis
      by (simp add: update_conv')
  qed
qed

lemma softbreak_not_overridden: "''softbreak'' \<notin> set (overrideRules rules)"
  by (simp add: overrideRules_def excludeRules_def)

lemma map_of_adapters:
  "map_of (wrapFencedLinesInSpan rnd (wrapTextInSpan (overrideDefaultDirectives rules))) =
     (map_of rules)
       (''directive'' \<mapsto> newRule (map_of rules ''directive''),
        ''directive_error'' \<mapsto> newRule (map_of rules ''directive_error''),
        ''text'' \<mapsto> wrapTextInSpan_rule (map_of rules ''text''),
        ''fence'' \<mapsto> wrapFencedLinesInSpan_rule rnd (map_of rules ''fence''))"
  by (simp add: wrapFencedLinesInSpan_def wrapTextInSpan_def overrideDefaultDirectives_def
      update_conv' Let_def)

lemma installed_softbreak:
  "map_of (markdownSourceMap rnd rules) ''softbreak'' = map_of rules ''softbreak''"
  by (simp add: markdownSourceMap_def Let_def foldl_update_other softbreak_not_overridden
      map_of_adapters)

lemma set_keys_update: "set (map fst (AList.update k v al)) = insert k (set (map fst al))"
  by (auto simp: update_keys)

lemma keys_adapters:
  "set (map fst (wrapFencedLinesInSpan rnd (wrapTextInSpan (overrideDefaultDirectives rules)))) =
     set (map fst rules) \<union> {''directive'', ''directive_error'', ''text'', ''fence''}"
  unfolding wrapFencedLinesInSpan_def wrapTextInSpan_def overrideDefaultDirectives_def Let_def
    set_keys_update
  by blast

lemma distinct_adapters:
  "distinct (map fst rules) \<Longrightarrow>
   distinct (map fst (wrapFencedLinesInSpan rnd (wrapTextInSpan (overrideDefaultDirectives rules))))"
  by (simp add: wrapFencedLinesInSpan_def wrapTextInSpan_def overrideDefaultDirectives_def
      Let_def distinct_update)

lemma distinct_overrideRules:
  assumes "well_formed_rules rules"
  shows "distinct (overrideRules (wrapFencedLinesInSpan rnd (wrapTextInSpan (overrideDefaultDirectives rules))))"
proof -
  let ?r1 = "wrapFencedLinesInSpan rnd (wrapTextInSpan (overrideDefaultDirectives rules))"
  have d: "distinct (map fst ?r1)"
    using assms by (simp add: well_formed_rules_def distinct_adapters)
  have k: "set (map fst ?r1) \<inter> {''paragraph_open'', ''heading_open'', ''admonition_open'', ''link_open''} = {}"
    using assms unfolding keys_adapters well_formed_rules_def by auto
  show ?thesis
    unfolding overrideRules_def using d k by (auto simp: distinct_filter)
qed

lemma library_rules_pure:
  "map_of (library_rules fs) k = Some r \<Longrightarrow> \<exists>f. r = pure_rule f"
  by (induction fs) (auto simp: library_rules_def split: if_splits)

lemma installed_rule:
  assumes "well_formed_rules rules" and "k \<noteq> ''softbreak''"
    and "k \<in> set (map fst rules) \<union> {''directive'', ''directive_error'', ''text'', ''fence'',
           ''paragraph_open'', ''heading_open'', ''admonition_open'', ''link_open''}"
  shows "map_of (markdownSourceMap rnd rules) k =
     Some (addLineNumberToTokens rnd
       (if k = ''fence'' then Some (wrapFencedLinesInSpan_rule rnd (map_of rules ''fence''))
        else if k = ''text'' then Some (wrapTextInSpan_rule (map_of rules ''text''))
        else if k = ''directive'' \<or> k = ''directive_error'' then Some (newRule (map_of rules k))
        else map_of rules k))"
proof -
  let ?r1 = "wrapFencedLinesInSpan rnd (wrapTextInSpan (overrideDefaultDirectives rules))"
  have "k \<in> set (map fst ?r1) \<union> {''paragraph_open'', ''heading_open'', ''admonition_open'', ''link_open''}"
    using assms(3) by (simp add: keys_adapters del: set_map) argo
  then have "k \<in> set (overrideRules ?r1)"
    using assms(2) unfolding overrideRules_def excludeRules_def by simp
  from foldl_update_hit[OF distinct_overrideRules[OF assms(1)] this]
  have "map_of (markdownSourceMap rnd rules) k = Some (addLineNumberToTokens rnd (map_of ?r1 k))"
    by (simp add: markdownSourceMap_def Let_def)
  then show ?thesis
    unfolding map_of_adapters by simp
qed

section \<open>The annotation of one token\<close>

lemma annotate_spanned:
  assumes "idx < length tokens" and "type_t (tokens ! idx) \<notin> set inlineContainers"
    and "map_t (tokens ! idx) = Some (s, e)"
  shows "annotate rnd tokens idx env n =
     Inr (tokens[idx := attrSet (tokens ! idx) SRC_LINE_ID (fst (randomLineId rnd n))],
          env\<lparr>lineMap := (lineMap env)(s + startLine env - chunkCorrection env \<mapsto> fst (randomLineId rnd n))\<rparr>,
          Suc n)"
  using assms by (simp add: annotate_def randomLineId_def chunkCorrection_def Let_def)

lemma installed_text_rules:
  "map_of (markdownSourceMap rnd (text_rules ftext br)) =
    [''softbreak'' \<mapsto> pure_rule (\<lambda>tokens idx options env self. br),
     ''text'' \<mapsto> addLineNumberToTokens rnd (Some (wrapTextInSpan_rule
         (Some (pure_rule (\<lambda>tokens idx options env self. ftext (content (tokens ! idx))))))),
     ''fence'' \<mapsto> addLineNumberToTokens rnd (Some (wrapFencedLinesInSpan_rule rnd None)),
     ''directive'' \<mapsto> addLineNumberToTokens rnd (Some (newRule None)),
     ''directive_error'' \<mapsto> addLineNumberToTokens rnd (Some (newRule None)),
     ''paragraph_open'' \<mapsto> addLineNumberToTokens rnd None,
     ''heading_open'' \<mapsto> addLineNumberToTokens rnd None,
     ''admonition_open'' \<mapsto> addLineNumberToTokens rnd None,
     ''link_open'' \<mapsto> addLineNumberToTokens rnd None]"
  by (simp add: markdownSourceMap_def wrapFencedLinesInSpan_def wrapTextInSpan_def text_rules_def library_rules_def
      overrideDefaultDirectives_def overrideRules_def excludeRules_def Let_def fun_eq_iff)

lemmas pass_simps =
  render_def render_step_def renderInline_def dispatch_def installed_text_rules paragraph_tokens_def
  upt_rec addLineNumberToTokens_def annotate_def inlineContainers_def three_lines_def text_token_def
  softbreak_token_def set_map_t_def set_children_def wrapTextInSpan_rule_def pure_rule_def
  randomLineId_def Let_def breaks_before_def

lemma one_line_paragraph_pass:
  "\<exists>html toks.
     render (markdownSourceMap rnd (text_rules ftext br)) (paragraph_tokens 0 [text_token c]) options
       \<lparr>startLine = start, chunkId = chunk, lineMap = lm\<rparr> self n =
     Inr (html, toks,
          \<lparr>startLine = start, chunkId = chunk,
             lineMap = lm(start - (if chunk \<noteq> 0 then 1 else 0) \<mapsto> fst (randomLineId rnd n))\<rparr>,
          Suc n)"
  by (simp add: pass_simps)

text \<open>
  Claim C1. A token that carries a span \<open>[s, e)\<close> and is not a paragraph or heading
  opening is annotated thus: a fresh identifier is minted, the line map receives it at
  line \<open>s + startLine - c\<close>, where \<open>c\<close> is 1 for every chunk but the first and 0
  for chunk 0, and the token's attribute bag holds the same identifier under the reserved
  key; the wrapped rule, or generic rendering, then runs on the annotated token. In
  particular the first line of a paragraph that starts at relative line 0 is recorded at
  absolute line 0 when rendered as chunk 0 from line 0, and at absolute line 9 when
  rendered as chunk 1 from line 10.
\<close>

theorem spanned_token_line:
  assumes "idx < length tokens"
    and "type_t (tokens ! idx) \<notin> set inlineContainers"
    and "map_t (tokens ! idx) = Some (s, e)"
  shows "let ident = fst (randomLineId rnd n);
             line = s + startLine env - chunkCorrection env;
             tokens' = tokens[idx := attrSet (tokens ! idx) SRC_LINE_ID ident];
             env' = env\<lparr>lineMap := (lineMap env)(line \<mapsto> ident)\<rparr>
         in annotate rnd tokens idx env n = Inr (tokens', env', Suc n)
          \<and> lineMap env' line = Some ident
          \<and> attrGet (tokens' ! idx) SRC_LINE_ID = Some ident
          \<and> addLineNumberToTokens rnd defaultRule tokens idx options env self n =
              (case defaultRule of
                 Some r \<Rightarrow> r tokens' idx options env' self (Suc n)
               | None \<Rightarrow> Inr (renderToken self tokens' idx options, tokens', env', Suc n))
          \<and> (\<exists>html toks.
                render (markdownSourceMap rnd (text_rules ftext br)) (paragraph_tokens 0 [text_token c])
                  options \<lparr>startLine = 0, chunkId = 0, lineMap = lm\<rparr> self n =
                Inr (html, toks, \<lparr>startLine = 0, chunkId = 0, lineMap = lm(0 \<mapsto> ident)\<rparr>, Suc n))
          \<and> (\<exists>html toks.
                render (markdownSourceMap rnd (text_rules ftext br)) (paragraph_tokens 0 [text_token c])
                  options \<lparr>startLine = 10, chunkId = 1, lineMap = lm\<rparr> self n =
                Inr (html, toks, \<lparr>startLine = 10, chunkId = 1, lineMap = lm(9 \<mapsto> ident)\<rparr>, Suc n))"
proof -
  have a: "annotate rnd tokens idx env n =
     Inr (tokens[idx := attrSet (tokens ! idx) SRC_LINE_ID (fst (randomLineId rnd n))],
          env\<lparr>lineMap := (lineMap env)(s + startLine env - chunkCorrection env \<mapsto> fst (randomLineId rnd n))\<rparr>,
          Suc n)"
    by (rule annotate_spanned[OF assms])
  have g: "attrGet (tokens[idx := attrSet (tokens ! idx) SRC_LINE_ID (fst (randomLineId rnd n))] ! idx)
      SRC_LINE_ID = Some (fst (randomLineId rnd n))"
    using assms(1) by (simp add: attrGet_attrSet)
  have p0: "\<exists>html toks.
     render (markdownSourceMap rnd (text_rules ftext br)) (paragraph_tokens 0 [text_token c]) options
       \<lparr>startLine = 0, chunkId = 0, lineMap = lm\<rparr> self n =
     Inr (html, toks, \<lparr>startLine = 0, chunkId = 0, lineMap = lm(0 \<mapsto> fst (randomLineId rnd n))\<rparr>, Suc n)"
    using one_line_paragraph_pass[of rnd ftext br c options 0 0 lm self n] by simp
  have p1: "\<exists>html toks.
     render (markdownSourceMap rnd (text_rules ftext br)) (paragraph_tokens 0 [text_token c]) options
       \<lparr>startLine = 10, chunkId = 1, lineMap = lm\<rparr> self n =
     Inr (html, toks, \<lparr>startLine = 10, chunkId = 1, lineMap = lm(9 \<mapsto> fst (randomLineId rnd n))\<rparr>, Suc n)"
    using one_line_paragraph_pass[of rnd ftext br c options 10 1 lm self n] by simp
  show ?thesis
    unfolding Let_def
    using a g p0 p1 by (simp add: addLineNumberToTokens_def)
qed

theorem spanned_token_line_witness:
  "annotate example_random [Token ''hr'' (Some (4, 5)) None None []] 0 (example_env 10 1) 0 =
     Inr ([Token ''hr'' (Some (4, 5)) None (Some [(''data-line-id'', ''07'')]) []],
          \<lparr>startLine = 10, chunkId = 1, lineMap = [13 \<mapsto> ''07'']\<rparr>, 1)
   \<and> addLineNumberToTokens example_random None [Token ''hr'' (Some (4, 5)) None None []] 0 ()
        (example_env 10 1) example_renderer 0 =
     Inr (''<hr data-line-id='' @ [CHR 0x22] @ ''07'' @ [CHR 0x22] @ ''>'',
          [Token ''hr'' (Some (4, 5)) None (Some [(''data-line-id'', ''07'')]) []],
          \<lparr>startLine = 10, chunkId = 1, lineMap = [13 \<mapsto> ''07'']\<rparr>, 1)"
  using spanned_token_line[of 0 "[Token ''hr'' (Some (4, 5)) None None []]" 4 5 example_random 0
      "example_env 10 1" None "()" example_renderer id "[]" "[]" Map.empty]
  by (simp add: inlineContainers_def Let_def randomLineId_def example_random_def example_env_def
      chunkCorrection_def attrSet_def set_attrs_def SRC_LINE_ID_def example_renderer_def
      example_renderAttrs_def)

section \<open>Totality of the inline container branch\<close>

text \<open>
  Claim C9. The inline container branch reads the token after the container and iterates
  its children without any check: when a paragraph or heading opening is the last token
  of the stream, or the token after it has no children, the rule throws. When the
  container carries a span, these are the only two ways for the annotation to fail.
\<close>

theorem inline_container_error:
  assumes "idx < length tokens"
    and "type_t (tokens ! idx) \<in> set inlineContainers"
  shows "(length tokens \<le> idx + 1 \<or> children (tokens ! (idx + 1)) = None
            \<longrightarrow> addLineNumberToTokens rnd defaultRule tokens idx options env self n = Inl TypeError)
       \<and> (map_t (tokens ! idx) \<noteq> None \<longrightarrow>
            (annotate rnd tokens idx env n = Inl TypeError
               \<longleftrightarrow> length tokens \<le> idx + 1 \<or> children (tokens ! (idx + 1)) = None))"
proof -
  have 1: "annotate rnd tokens idx env n = Inl TypeError"
    if "length tokens \<le> idx + 1 \<or> children (tokens ! (idx + 1)) = None"
    using that assms by (auto simp: annotate_def Let_def)
  have 2: "annotate rnd tokens idx env n \<noteq> Inl TypeError"
    if "map_t (tokens ! idx) \<noteq> None" "\<not> (length tokens \<le> idx + 1 \<or> children (tokens ! (idx + 1)) = None)"
  proof -
    from that obtain s e cs where m: "map_t (tokens ! idx) = Some (s, e)"
      and c: "children (tokens ! (idx + 1)) = Some cs" by auto
    from walk_children_spanned[of s e 0 False cs] obtain cs' where
      "walk_children (Some (s, e)) 0 False cs = Inr cs'" by blast
    with m c that assms show ?thesis
      by (simp add: annotate_def Let_def)
  qed
  from 1 2 show ?thesis
    by (auto simp: addLineNumberToTokens_def)
qed

theorem inline_container_error_witness:
  "addLineNumberToTokens example_random None [Token ''paragraph_open'' (Some (0, 1)) None None []] 0 ()
      (example_env 0 0) example_renderer 0 = Inl TypeError
   \<and> addLineNumberToTokens example_random None
        [Token ''heading_open'' (Some (0, 1)) None None [], Token ''inline'' (Some (0, 1)) None None ''x''] 0 ()
        (example_env 0 0) example_renderer 0 = Inl TypeError"
  using inline_container_error[of 0 "[Token ''paragraph_open'' (Some (0, 1)) None None []]"
      example_random None "()" "example_env 0 0" example_renderer 0]
    inline_container_error[of 0 "[Token ''heading_open'' (Some (0, 1)) None None [], Token ''inline'' (Some (0, 1)) None None ''x'']"
      example_random None "()" "example_env 0 0" example_renderer 0]
  by (simp add: inlineContainers_def)


section \<open>The walk over the children of an inline container\<close>

lemma annotate_container:
  assumes "idx + 1 < length tokens" and "type_t (tokens ! idx) \<in> set inlineContainers"
    and "map_t (tokens ! idx) = Some (s, e)" and "children (tokens ! (idx + 1)) = Some cs"
  shows "\<exists>cs'. annotate rnd tokens idx env n =
            Inr (tokens[idx + 1 := set_children (tokens ! (idx + 1)) (Some cs')], env, n)
          \<and> length cs' = length cs
          \<and> (\<forall>j<length cs. cs' ! j =
               (if leads_line False j cs
                then set_map_t (cs ! j)
                       (Some (s + int (breaks_before j cs), s + int (breaks_before j cs) + 1))
                else cs ! j))"
proof -
  from walk_children_spanned[of s e 0 False cs] obtain cs' where
    w: "walk_children (Some (s, e)) 0 False cs = Inr cs'" and l: "length cs' = length cs"
    and n: "\<forall>j<length cs. cs' ! j =
        (if leads_line False j cs
         then set_map_t (cs ! j) (Some (s + 0 + int (breaks_before j cs), s + 0 + int (breaks_before j cs) + 1))
         else cs ! j)"
    by blast
  have "annotate rnd tokens idx env n =
      Inr (tokens[idx + 1 := set_children (tokens ! (idx + 1)) (Some cs')], env, n)"
    using assms w by (simp add: annotate_def Let_def)
  with l n show ?thesis by auto
qed

lemma three_lines_pass:
  "\<exists>opening closing.
     render (markdownSourceMap rnd (text_rules ftext br)) (paragraph_tokens 0 three_lines) options
       \<lparr>startLine = 0, chunkId = 0, lineMap = lm\<rparr> self n =
     Inr (opening
            @ ''<span'' @ renderAttrs self (attrSet (set_map_t (text_token ''Line1'') (Some (0, 1))) SRC_LINE_ID (fst (randomLineId rnd n)))
            @ ''>'' @ ftext ''Line1'' @ ''</span>'' @ br
            @ ''<span'' @ renderAttrs self (attrSet (set_map_t (text_token ''Line2'') (Some (1, 2))) SRC_LINE_ID (fst (randomLineId rnd (n + 1))))
            @ ''>'' @ ftext ''Line2'' @ ''</span>'' @ br
            @ ''<span'' @ renderAttrs self (attrSet (set_map_t (text_token ''Line3'') (Some (2, 3))) SRC_LINE_ID (fst (randomLineId rnd (n + 2))))
            @ ''>'' @ ftext ''Line3'' @ ''</span>''
            @ closing,
          [Token ''paragraph_open'' (Some (0, 3)) None None [],
           Token ''inline'' (Some (0, 3))
             (Some [attrSet (set_map_t (text_token ''Line1'') (Some (0, 1))) SRC_LINE_ID (fst (randomLineId rnd n)),
                    softbreak_token,
                    attrSet (set_map_t (text_token ''Line2'') (Some (1, 2))) SRC_LINE_ID (fst (randomLineId rnd (n + 1))),
                    softbreak_token,
                    attrSet (set_map_t (text_token ''Line3'') (Some (2, 3))) SRC_LINE_ID (fst (randomLineId rnd (n + 2)))])
             None [],
           Token ''paragraph_close'' None None None []],
          \<lparr>startLine = 0, chunkId = 0,
             lineMap = lm(0 \<mapsto> fst (randomLineId rnd n), 1 \<mapsto> fst (randomLineId rnd (n + 1)),
                          2 \<mapsto> fst (randomLineId rnd (n + 2)))\<rparr>,
          n + 3)"
  apply (rule exI[of _ "renderToken self
           [Token ''paragraph_open'' (Some (0, 3)) None None [],
            Token ''inline'' (Some (0, 3))
              (Some [set_map_t (text_token ''Line1'') (Some (0, 1)), softbreak_token,
                     set_map_t (text_token ''Line2'') (Some (1, 2)), softbreak_token,
                     set_map_t (text_token ''Line3'') (Some (2, 3))]) None [],
            Token ''paragraph_close'' None None None []] 0 options"])
  apply (rule exI[of _ "renderToken self
           [Token ''paragraph_open'' (Some (0, 3)) None None [],
            Token ''inline'' (Some (0, 3))
              (Some [attrSet (set_map_t (text_token ''Line1'') (Some (0, 1))) SRC_LINE_ID (fst (randomLineId rnd n)),
                     softbreak_token,
                     attrSet (set_map_t (text_token ''Line2'') (Some (1, 2))) SRC_LINE_ID (fst (randomLineId rnd (n + 1))),
                     softbreak_token,
                     attrSet (set_map_t (text_token ''Line3'') (Some (2, 3))) SRC_LINE_ID (fst (randomLineId rnd (n + 2)))])
              None [],
            Token ''paragraph_close'' None None None []] (Suc (Suc 0)) options"])
  apply (simp add: pass_simps attrSet_def set_attrs_def)
  done

text \<open>
  Claim C2, as stated, fails in one point: the three identifiers of the three-line
  paragraph need not be distinct. An identifier is whatever the random source yields, and
  the code checks for no collision; with a source that yields the same number three times
  the pass records the same identifier at lines 0, 1 and 2.
\<close>

theorem three_lines_repeated_identifier:
  "render (markdownSourceMap constant_random (text_rules escapeHtml [CHR 0x0A]))
       (paragraph_tokens 0 three_lines) () (example_env 0 0) example_renderer 0 =
     Inr (''<paragraph_open>''
            @ ''<span data-line-id='' @ [CHR 0x22] @ ''05'' @ [CHR 0x22] @ ''>Line1</span>'' @ [CHR 0x0A]
            @ ''<span data-line-id='' @ [CHR 0x22] @ ''05'' @ [CHR 0x22] @ ''>Line2</span>'' @ [CHR 0x0A]
            @ ''<span data-line-id='' @ [CHR 0x22] @ ''05'' @ [CHR 0x22] @ ''>Line3</span>''
            @ ''<paragraph_close>'',
          [Token ''paragraph_open'' (Some (0, 3)) None None [],
           Token ''inline'' (Some (0, 3))
             (Some [Token ''text'' (Some (0, 1)) None (Some [(''data-line-id'', ''05'')]) ''Line1'',
                    Token ''softbreak'' None None None [],
                    Token ''text'' (Some (1, 2)) None (Some [(''data-line-id'', ''05'')]) ''Line2'',
                    Token ''softbreak'' None None None [],
                    Token ''text'' (Some (2, 3)) None (Some [(''data-line-id'', ''05'')]) ''Line3''])
             None [],
           Token ''paragraph_close'' None None None []],
          \<lparr>startLine = 0, chunkId = 0, lineMap = [0 \<mapsto> ''05'', 1 \<mapsto> ''05'', 2 \<mapsto> ''05'']\<rparr>,
          3)
   \<and> \<not> distinct [''05'', ''05'', ''05'']"
  by (simp add: pass_simps attrSet_def set_attrs_def constant_random_def example_env_def
      example_renderer_def example_renderAttrs_def SRC_LINE_ID_def)

text \<open>
  Claim C2, as amended. For a paragraph or heading opening with span start \<open>s\<close>, the
  annotator walks the children of the token that follows it, in order, with a visual line
  counter that starts at 0 and grows at every line break (a child of type
  \<^verbatim>\<open>softbreak\<close>); the first child that is not a line break on each visual line
  \<open>k\<close> is given the one-line span \<open>[s + k, s + k + 1)\<close>, every other child is left as
  it is, and the walk mints no identifier and writes no line map entry (the context and the
  random source come back unchanged). Consequently the pass
  over the paragraph \<^verbatim>\<open>"Line1\nLine2\nLine3"\<close> from line 0 as chunk 0 records three
  identifiers, the three successive draws of the random source, at lines 0, 1 and 2; each
  is the identifier attribute of the text run that leads its line, and the span element
  emitted for that run carries the run's attributes. The three identifiers are distinct
  exactly when the three draws are.
\<close>

theorem inline_container_visual_lines:
  assumes "idx + 1 < length tokens"
    and "type_t (tokens ! idx) \<in> set inlineContainers"
    and "map_t (tokens ! idx) = Some (s, e)"
    and "children (tokens ! (idx + 1)) = Some cs"
  shows "(\<exists>cs'. annotate rnd tokens idx env n =
            Inr (tokens[idx + 1 := set_children (tokens ! (idx + 1)) (Some cs')], env, n)
          \<and> length cs' = length cs
          \<and> (\<forall>j<length cs. cs' ! j =
               (if leads_line False j cs
                then set_map_t (cs ! j)
                       (Some (s + int (breaks_before j cs), s + int (breaks_before j cs) + 1))
                else cs ! j)))
    \<and> (let id0 = fst (randomLineId rnd n);
            id1 = fst (randomLineId rnd (n + 1));
            id2 = fst (randomLineId rnd (n + 2));
            t0 = attrSet (set_map_t (text_token ''Line1'') (Some (0, 1))) SRC_LINE_ID id0;
            t1 = attrSet (set_map_t (text_token ''Line2'') (Some (1, 2))) SRC_LINE_ID id1;
            t2 = attrSet (set_map_t (text_token ''Line3'') (Some (2, 3))) SRC_LINE_ID id2;
            lm' = lm(0 \<mapsto> id0, 1 \<mapsto> id1, 2 \<mapsto> id2)
        in (\<exists>opening closing.
              render (markdownSourceMap rnd (text_rules ftext br)) (paragraph_tokens 0 three_lines)
                options \<lparr>startLine = 0, chunkId = 0, lineMap = lm\<rparr> self n =
              Inr (opening
                     @ ''<span'' @ renderAttrs self t0 @ ''>'' @ ftext ''Line1'' @ ''</span>'' @ br
                     @ ''<span'' @ renderAttrs self t1 @ ''>'' @ ftext ''Line2'' @ ''</span>'' @ br
                     @ ''<span'' @ renderAttrs self t2 @ ''>'' @ ftext ''Line3'' @ ''</span>''
                     @ closing,
                   [Token ''paragraph_open'' (Some (0, 3)) None None [],
                    Token ''inline'' (Some (0, 3))
                      (Some [t0, softbreak_token, t1, softbreak_token, t2]) None [],
                    Token ''paragraph_close'' None None None []],
                   \<lparr>startLine = 0, chunkId = 0, lineMap = lm'\<rparr>, n + 3))
         \<and> attrGet t0 SRC_LINE_ID = lm' 0 \<and> attrGet t1 SRC_LINE_ID = lm' 1
         \<and> attrGet t2 SRC_LINE_ID = lm' 2
         \<and> lm' 0 = Some id0 \<and> lm' 1 = Some id1 \<and> lm' 2 = Some id2
         \<and> (inj_on lm' {0, 1, 2} \<longleftrightarrow> distinct [id0, id1, id2]))"
proof -
  note annotate_container[OF assms, of rnd env n]
  moreover note three_lines_pass[of rnd ftext br options lm self n]
  ultimately show ?thesis
    unfolding Let_def by (simp add: attrGet_attrSet) blast
qed


theorem inline_container_visual_lines_witness:
  "annotate example_random (paragraph_tokens 0 three_lines) 0 (example_env 0 0) 0 =
     Inr ([Token ''paragraph_open'' (Some (0, 3)) None None [],
           Token ''inline'' (Some (0, 3))
             (Some [Token ''text'' (Some (0, 1)) None None ''Line1'',
                    Token ''softbreak'' None None None [],
                    Token ''text'' (Some (1, 2)) None None ''Line2'',
                    Token ''softbreak'' None None None [],
                    Token ''text'' (Some (2, 3)) None None ''Line3'']) None [],
           Token ''paragraph_close'' None None None []],
          example_env 0 0, 0)
   \<and> render (markdownSourceMap example_random (text_rules escapeHtml [CHR 0x0A]))
       (paragraph_tokens 0 three_lines) () (example_env 0 0) example_renderer 0 =
     Inr (''<paragraph_open>''
            @ ''<span data-line-id='' @ [CHR 0x22] @ ''07'' @ [CHR 0x22] @ ''>Line1</span>'' @ [CHR 0x0A]
            @ ''<span data-line-id='' @ [CHR 0x22] @ ''077'' @ [CHR 0x22] @ ''>Line2</span>'' @ [CHR 0x0A]
            @ ''<span data-line-id='' @ [CHR 0x22] @ ''0777'' @ [CHR 0x22] @ ''>Line3</span>''
            @ ''<paragraph_close>'',
          [Token ''paragraph_open'' (Some (0, 3)) None None [],
           Token ''inline'' (Some (0, 3))
             (Some [Token ''text'' (Some (0, 1)) None (Some [(''data-line-id'', ''07'')]) ''Line1'',
                    Token ''softbreak'' None None None [],
                    Token ''text'' (Some (1, 2)) None (Some [(''data-line-id'', ''077'')]) ''Line2'',
                    Token ''softbreak'' None None None [],
                    Token ''text'' (Some (2, 3)) None (Some [(''data-line-id'', ''0777'')]) ''Line3''])
             None [],
           Token ''paragraph_close'' None None None []],
          \<lparr>startLine = 0, chunkId = 0, lineMap = [0 \<mapsto> ''07'', 1 \<mapsto> ''077'', 2 \<mapsto> ''0777'']\<rparr>,
          3)"
  using inline_container_visual_lines[of 0 "paragraph_tokens 0 three_lines" 0 3 three_lines
      example_random "example_env 0 0" 0 Map.empty escapeHtml "[CHR 0x0A]" "()" example_renderer]
  by (simp add: pass_simps attrSet_def set_attrs_def example_random_def example_env_def
      example_renderer_def example_renderAttrs_def SRC_LINE_ID_def)


section \<open>The verbatim adapter\<close>

lemma fence_verbatim:
  assumes r: "defaultFenceRule tokens idx options env self n = Inr (defaultOutput, tokens', env', n')"
    and pre: "startsWith defaultOutput ''<pre''"
    and idx: "idx < length tokens'"
    and m: "map_t (tokens' ! idx) = Some (s, e)"
    and ls: "ls = butlast (split_nl (content (tokens' ! idx)))"
  shows "wrapFencedLinesInSpan_rule rnd (Some defaultFenceRule) tokens idx options env self n =
     Inr (''<pre><code'' @ renderAttrs self (tokens' ! idx) @ ''>''
            @ join_nl (map (\<lambda>i. span_line (fst (randomLineId rnd (n' + i))) (escapeHtml (ls ! i)))
                         [0..<length ls])
            @ ''</code></pre>'' @ [CHR 0x0A],
          tokens',
          env'\<lparr>lineMap :=
            (\<lambda>k. if s + startLine env' - chunkCorrection env' + 1 \<le> k
                     \<and> k < s + startLine env' - chunkCorrection env' + 1 + int (length ls)
                  then Some (fst (randomLineId rnd
                         (n' + nat (k - (s + startLine env' - chunkCorrection env' + 1)))))
                  else lineMap env' k)\<rparr>,
          n' + length ls)"
proof -
  have kept: "filter_not_last (split_nl (escapeHtml (content (tokens' ! idx)))) = map escapeHtml ls"
    by (simp add: split_nl_escapeHtml filter_not_last_butlast map_butlast ls)
  have spans: "map (\<lambda>j. span_line (fst (randomLineId rnd (n' + j))) (map escapeHtml ls ! j))
                 [0..<length (map escapeHtml ls)]
      = map (\<lambda>i. span_line (fst (randomLineId rnd (n' + i))) (escapeHtml (ls ! i))) [0..<length ls]"
    by (rule map_cong) simp_all
  have w: "wrap_lines rnd (s + startLine env' - chunkCorrection env') 0 (map escapeHtml ls)
             (lineMap env') n' =
       (map (\<lambda>i. span_line (fst (randomLineId rnd (n' + i))) (escapeHtml (ls ! i))) [0..<length ls],
        (\<lambda>k. if s + startLine env' - chunkCorrection env' + 1 \<le> k
                     \<and> k < s + startLine env' - chunkCorrection env' + 1 + int (length ls)
                  then Some (fst (randomLineId rnd
                         (n' + nat (k - (s + startLine env' - chunkCorrection env' + 1)))))
                  else lineMap env' k),
        n' + length ls)"
    unfolding wrap_lines_eq spans by (simp cong: if_cong)
  show ?thesis
  proof (cases "chunkId env' = 0")
    case True
    with r pre idx m w kept show ?thesis
      by (simp add: wrapFencedLinesInSpan_rule_def Let_def chunkCorrection_def del: upt_Suc)
  next
    case False
    with r pre idx m w kept show ?thesis
      by (simp add: wrapFencedLinesInSpan_rule_def Let_def chunkCorrection_def del: upt_Suc)
  qed
qed

lemma split_nl_terminated:
  assumes "\<forall>l\<in>set ls. CHR 0x0A \<notin> set l"
  shows "split_nl (concat (map (\<lambda>l. l @ [CHR 0x0A]) ls)) = ls @ [[]]"
  using split_nl_lines[OF assms, of "[]"] by simp

lemma split_nl_snoc:
  "split_nl (xs @ [c]) =
     (if c = CHR 0x0A then split_nl xs @ [[]]
      else butlast (split_nl xs) @ [last (split_nl xs) @ [c]])"
proof (induction xs)
  case Nil
  then show ?case by simp
next
  case (Cons x xs)
  obtain l ls' where sp: "split_nl xs = l # ls'"
    using split_nl_nonempty[of xs] by (cases "split_nl xs") auto
  show ?case
    using Cons.IH sp by (cases "ls' = []") (auto split: list.splits)
qed

lemma last_split_nl:
  "last (split_nl s) = [] \<longleftrightarrow> s = [] \<or> last s = CHR 0x0A"
  by (cases s rule: rev_cases) (simp_all add: split_nl_snoc)

lemma last_split_nl_line: "CHR 0x0A \<notin> set (last (split_nl s))"
proof (induction s)
  case Nil
  then show ?case by simp
next
  case (Cons c cs)
  then show ?case
    using split_nl_nonempty[of cs] by (cases "split_nl cs") (auto split: if_splits)
qed

lemma splice_position:
  "\<exists>p\<le>length d.
      slice d 0 (indexOf c d) = take p d \<and> slice_from d (indexOf c d) = drop p d
    \<and> (c \<in> set d \<longrightarrow> p < length d \<and> d ! p = c \<and> c \<notin> set (take p d))
    \<and> (c \<notin> set d \<longrightarrow> p = length d - 1)"
proof (cases "c \<in> set d")
  case True
  from indexOf_in[OF this] show ?thesis
    by (intro exI[of _ "nat (indexOf c d)"]) (simp add: slice_take slice_from_drop True)
next
  case False
  then show ?thesis
    by (intro exI[of _ "length d - 1"]) (simp add: indexOf_notin slice_neg1 slice_from_neg1)
qed

lemma verbatim_lines_wrapped_aux:
  fixes rnd :: "nat \<Rightarrow> string" and env' :: env and ls :: "string list"
  assumes "defaultFenceRule tokens idx options env self n = Inr (defaultOutput, tokens', env', n')"
    and "startsWith defaultOutput ''<pre''"
    and "idx < length tokens'"
    and "map_t (tokens' ! idx) = Some (s, e)"
    and "content (tokens' ! idx) = concat (map (\<lambda>l. l @ [CHR 0x0A]) ls)"
    and "\<forall>l\<in>set ls. CHR 0x0A \<notin> set l"
  defines "base \<equiv> s + startLine env' - chunkCorrection env'"
    and "ident \<equiv> (\<lambda>i. fst (randomLineId rnd (n' + i)))"
  defines "lm \<equiv> (\<lambda>k. if base + 1 \<le> k \<and> k < base + 1 + int (length ls)
                        then Some (ident (nat (k - (base + 1)))) else lineMap env' k)"
  shows "wrapFencedLinesInSpan_rule rnd (Some defaultFenceRule) tokens idx options env self n =
              Inr (''<pre><code'' @ renderAttrs self (tokens' ! idx) @ ''>''
                     @ join_nl (map (\<lambda>i. span_line (ident i) (escapeHtml (ls ! i))) [0..<length ls])
                     @ ''</code></pre>'' @ [CHR 0x0A],
                   tokens', env'\<lparr>lineMap := lm\<rparr>, n' + length ls)
          \<and> split_nl (escapeHtml (content (tokens' ! idx))) = map escapeHtml ls @ [[]]
          \<and> filter_not_last (split_nl (escapeHtml (content (tokens' ! idx)))) = map escapeHtml ls
          \<and> (\<forall>i<length ls. lm (base + int i + 1) = Some (ident i))
          \<and> (\<forall>k. k \<le> base \<or> base + int (length ls) < k \<longrightarrow> lm k = lineMap env' k)
          \<and> (length ls = 4 \<and> s = 5 \<and> startLine env' = 0 \<and> chunkId env' = 0 \<longrightarrow>
                lm 6 = Some (ident 0) \<and> lm 7 = Some (ident 1) \<and> lm 8 = Some (ident 2)
              \<and> lm 9 = Some (ident 3) \<and> lm 5 = lineMap env' 5 \<and> lm 10 = lineMap env' 10)
          \<and> (inj_on ident {..<length ls} \<longrightarrow> inj_on lm {base + 1..base + int (length ls)})"
proof -
  have sp: "split_nl (content (tokens' ! idx)) = ls @ [[]]"
    using assms(5) split_nl_terminated[OF assms(6)] by simp
  then have ls: "ls = butlast (split_nl (content (tokens' ! idx)))" by simp
  have 1: "wrapFencedLinesInSpan_rule rnd (Some defaultFenceRule) tokens idx options env self n =
              Inr (''<pre><code'' @ renderAttrs self (tokens' ! idx) @ ''>''
                     @ join_nl (map (\<lambda>i. span_line (ident i) (escapeHtml (ls ! i))) [0..<length ls])
                     @ ''</code></pre>'' @ [CHR 0x0A],
                   tokens', env'\<lparr>lineMap := lm\<rparr>, n' + length ls)"
    unfolding lm_def ident_def base_def
    by (rule fence_verbatim[of defaultFenceRule tokens idx options env self n defaultOutput
          tokens' env' n' s e ls rnd, OF assms(1-4) ls])
  have 2: "split_nl (escapeHtml (content (tokens' ! idx))) = map escapeHtml ls @ [[]]"
    by (simp add: split_nl_escapeHtml sp)
  have 3: "filter_not_last (split_nl (escapeHtml (content (tokens' ! idx)))) = map escapeHtml ls"
    by (simp add: 2 filter_not_last_butlast)
  have 4: "\<forall>i<length ls. lm (base + int i + 1) = Some (ident i)"
    by (simp add: lm_def)
  have 5: "\<forall>k. k \<le> base \<or> base + int (length ls) < k \<longrightarrow> lm k = lineMap env' k"
    by (auto simp: lm_def)
  have 6: "length ls = 4 \<and> s = 5 \<and> startLine env' = 0 \<and> chunkId env' = 0 \<longrightarrow>
           lm 6 = Some (ident 0) \<and> lm 7 = Some (ident 1) \<and> lm 8 = Some (ident 2)
         \<and> lm 9 = Some (ident 3) \<and> lm 5 = lineMap env' 5 \<and> lm 10 = lineMap env' 10"
  proof
    assume a: "length ls = 4 \<and> s = 5 \<and> startLine env' = 0 \<and> chunkId env' = 0"
    then have b: "base = 5" by (simp add: base_def chunkCorrection_def)
    from a have l: "length ls = 4" by simp
    show "lm 6 = Some (ident 0) \<and> lm 7 = Some (ident 1) \<and> lm 8 = Some (ident 2)
         \<and> lm 9 = Some (ident 3) \<and> lm 5 = lineMap env' 5 \<and> lm 10 = lineMap env' 10"
      unfolding lm_def b l by simp
  qed
  have 7: "inj_on ident {..<length ls} \<longrightarrow> inj_on lm {base + 1..base + int (length ls)}"
  proof
    assume inj: "inj_on ident {..<length ls}"
    show "inj_on lm {base + 1..base + int (length ls)}"
    proof (rule inj_onI)
      fix x y
      assume x: "x \<in> {base + 1..base + int (length ls)}" and y: "y \<in> {base + 1..base + int (length ls)}"
        and eq: "lm x = lm y"
      from x y eq have "ident (nat (x - (base + 1))) = ident (nat (y - (base + 1)))"
        by (simp add: lm_def)
      moreover from x y have "nat (x - (base + 1)) \<in> {..<length ls}" "nat (y - (base + 1)) \<in> {..<length ls}"
        by auto
      ultimately have "nat (x - (base + 1)) = nat (y - (base + 1))"
        using inj by (auto dest: inj_onD)
      with x y show "x = y" by auto
    qed
  qed
  show ?thesis
    by (intro conjI 1 2 3 4 5 6 7)
qed


text \<open>
  What the adapter does for a true verbatim block (the unmodified output starts with the
  verbatim prefix) whose content consists of the physical lines \<open>ls\<close>, each ended by a
  line break: it escapes the content, splits it at the line breaks, discards the trailing
  empty segment that the final line break produces, and wraps line \<open>i\<close> in its own span
  with a fresh identifier that the line map records at
  \<open>span.start + startLine - chunkCorrection + i + 1\<close>; no other line map entry is touched
  by the adapter. A block with four such lines whose opening fence is at line 5, rendered
  as the single chunk from line 0, records the four draws at lines 6, 7, 8 and 9 and
  nothing at the fence lines 5 and 10.
\<close>

lemma terminated_lines_wrapped:
  assumes "defaultFenceRule tokens idx options env self n = Inr (defaultOutput, tokens', env', n')"
    and "startsWith defaultOutput ''<pre''"
    and "idx < length tokens'"
    and "map_t (tokens' ! idx) = Some (s, e)"
    and "content (tokens' ! idx) = concat (map (\<lambda>l. l @ [CHR 0x0A]) ls)"
    and "\<forall>l\<in>set ls. CHR 0x0A \<notin> set l"
  shows "let base = s + startLine env' - chunkCorrection env';
             ident = (\<lambda>i. fst (randomLineId rnd (n' + i)));
             lm = (\<lambda>k. if base + 1 \<le> k \<and> k < base + 1 + int (length ls)
                        then Some (ident (nat (k - (base + 1)))) else lineMap env' k)
         in wrapFencedLinesInSpan_rule rnd (Some defaultFenceRule) tokens idx options env self n =
              Inr (''<pre><code'' @ renderAttrs self (tokens' ! idx) @ ''>''
                     @ join_nl (map (\<lambda>i. span_line (ident i) (escapeHtml (ls ! i))) [0..<length ls])
                     @ ''</code></pre>'' @ [CHR 0x0A],
                   tokens', env'\<lparr>lineMap := lm\<rparr>, n' + length ls)
          \<and> split_nl (escapeHtml (content (tokens' ! idx))) = map escapeHtml ls @ [[]]
          \<and> filter_not_last (split_nl (escapeHtml (content (tokens' ! idx)))) = map escapeHtml ls
          \<and> (\<forall>i<length ls. lm (base + int i + 1) = Some (ident i))
          \<and> (\<forall>k. k \<le> base \<or> base + int (length ls) < k \<longrightarrow> lm k = lineMap env' k)
          \<and> (length ls = 4 \<and> s = 5 \<and> startLine env' = 0 \<and> chunkId env' = 0 \<longrightarrow>
                lm 6 = Some (ident 0) \<and> lm 7 = Some (ident 1) \<and> lm 8 = Some (ident 2)
              \<and> lm 9 = Some (ident 3) \<and> lm 5 = lineMap env' 5 \<and> lm 10 = lineMap env' 10)
          \<and> (inj_on ident {..<length ls} \<longrightarrow> inj_on lm {base + 1..base + int (length ls)})"
  unfolding Let_def
  by (rule verbatim_lines_wrapped_aux[of defaultFenceRule tokens idx options env self n defaultOutput
        tokens' env' n' s e ls rnd, OF assms])

lemma terminated_lines_wrapped_example:
  "wrapFencedLinesInSpan_rule example_random (Some (pure_rule example_fence_output))
     [four_line_fence] 0 () (example_env 0 0) example_renderer 0 =
   Inr (''<pre><code>''
          @ ''<span data-line-id='' @ [CHR 0x22] @ ''07'' @ [CHR 0x22] @ ''>a&lt;b</span>'' @ [CHR 0x0A]
          @ ''<span data-line-id='' @ [CHR 0x22] @ ''077'' @ [CHR 0x22] @ ''>c</span>'' @ [CHR 0x0A]
          @ ''<span data-line-id='' @ [CHR 0x22] @ ''0777'' @ [CHR 0x22] @ ''></span>'' @ [CHR 0x0A]
          @ ''<span data-line-id='' @ [CHR 0x22] @ ''07777'' @ [CHR 0x22] @ ''>d</span>''
          @ ''</code></pre>'' @ [CHR 0x0A],
        [four_line_fence],
        \<lparr>startLine = 0, chunkId = 0,
           lineMap = [6 \<mapsto> ''07'', 7 \<mapsto> ''077'', 8 \<mapsto> ''0777'', 9 \<mapsto> ''07777'']\<rparr>,
        4)"
  using terminated_lines_wrapped[of "pure_rule example_fence_output" "[four_line_fence]" 0 "()"
      "example_env 0 0" example_renderer 0
      "example_fence_output [four_line_fence] 0 () (example_env 0 0) example_renderer"
      "[four_line_fence]" "example_env 0 0" 0 5 11 "[''a<b'', ''c'', [], ''d'']" example_random]
  by (simp add: wrapFencedLinesInSpan_rule_def pure_rule_def example_fence_output_def
      four_line_fence_def startsWith_def example_env_def example_renderer_def
      example_renderAttrs_def filter_not_last_butlast randomLineId_def example_random_def
      SRC_LINE_ID_def Let_def)

text \<open>
  Claim C3. The spec has the adapter discard only the trailing empty segment that the final
  line break produces and wrap every remaining physical line, so that a verbatim block
  with exactly four content lines whose opening fence is at line 5 yields four identifiers
  at lines 6, 7, 8 and 9. The code drops the last segment whatever it holds. For the block
  below, which has exactly four content lines and is closed by the end of the document,
  so that its last line has no line break, the code wraps only three lines and records
  only lines 6, 7 and 8: the fourth content line is in neither the output nor the line
  map.
\<close>

theorem verbatim_four_lines_one_lost:
  "wrapFencedLinesInSpan_rule example_random (Some (pure_rule example_fence_output))
     [four_line_unclosed_fence] 0 () (example_env 0 0) example_renderer 0 =
   Inr (''<pre><code>''
          @ ''<span data-line-id='' @ [CHR 0x22] @ ''07'' @ [CHR 0x22] @ ''>a</span>'' @ [CHR 0x0A]
          @ ''<span data-line-id='' @ [CHR 0x22] @ ''077'' @ [CHR 0x22] @ ''>b</span>'' @ [CHR 0x0A]
          @ ''<span data-line-id='' @ [CHR 0x22] @ ''0777'' @ [CHR 0x22] @ ''>c</span>''
          @ ''</code></pre>'' @ [CHR 0x0A],
        [four_line_unclosed_fence],
        \<lparr>startLine = 0, chunkId = 0,
           lineMap = [6 \<mapsto> ''07'', 7 \<mapsto> ''077'', 8 \<mapsto> ''0777'']\<rparr>,
        3)
   \<and> split_nl (content four_line_unclosed_fence) = [''a'', ''b'', ''c'', ''d'']
   \<and> example_fence_output [four_line_unclosed_fence] 0 () (example_env 0 0) example_renderer =
       ''<pre><code>a'' @ [CHR 0x0A] @ ''b'' @ [CHR 0x0A] @ ''c'' @ [CHR 0x0A]
         @ ''d</code></pre>'' @ [CHR 0x0A]"
  by (simp add: wrapFencedLinesInSpan_rule_def pure_rule_def example_fence_output_def
      four_line_unclosed_fence_def startsWith_def example_env_def example_renderer_def
      example_renderAttrs_def filter_not_last_butlast randomLineId_def example_random_def
      SRC_LINE_ID_def Let_def)

lemma escapeHtml_empty: "escapeHtml s = [] \<longleftrightarrow> s = []"
  by (cases s) auto

lemma verbatim_unterminated_aux:
  fixes rnd :: "nat \<Rightarrow> string" and env' :: env and tokens' :: "token list"
  assumes "defaultFenceRule tokens idx options env self n = Inr (defaultOutput, tokens', env', n')"
    and "startsWith defaultOutput ''<pre''"
    and "idx < length tokens'"
    and "map_t (tokens' ! idx) = Some (s, e)"
    and "content (tokens' ! idx) \<noteq> []"
    and "last (content (tokens' ! idx)) \<noteq> CHR 0x0A"
  defines "segments \<equiv> split_nl (content (tokens' ! idx))"
  defines "kept \<equiv> butlast segments"
    and "base \<equiv> s + startLine env' - chunkCorrection env'"
    and "ident \<equiv> (\<lambda>i. fst (randomLineId rnd (n' + i)))"
  defines "lm \<equiv> (\<lambda>k. if base + 1 \<le> k \<and> k < base + 1 + int (length kept)
                        then Some (ident (nat (k - (base + 1)))) else lineMap env' k)"
  shows "wrapFencedLinesInSpan_rule rnd (Some defaultFenceRule) tokens idx options env self n =
              Inr (''<pre><code'' @ renderAttrs self (tokens' ! idx) @ ''>''
                     @ join_nl (map (\<lambda>i. span_line (ident i) (escapeHtml (kept ! i))) [0..<length kept])
                     @ ''</code></pre>'' @ [CHR 0x0A],
                   tokens', env'\<lparr>lineMap := lm\<rparr>, n' + length kept)
          \<and> segments = kept @ [last segments]
          \<and> last segments \<noteq> [] \<and> CHR 0x0A \<notin> set (last segments)
          \<and> split_nl (escapeHtml (content (tokens' ! idx)))
               = map escapeHtml kept @ [escapeHtml (last segments)]
          \<and> escapeHtml (last segments) \<noteq> []
          \<and> filter_not_last (split_nl (escapeHtml (content (tokens' ! idx)))) = map escapeHtml kept
          \<and> (\<forall>k. base + int (length kept) < k \<longrightarrow> lm k = lineMap env' k)
          \<and> (\<forall>xs :: string list. filter_not_last xs = butlast xs)"
proof -
  have ne: "segments \<noteq> []" by (simp add: segments_def split_nl_nonempty)
  have 1: "wrapFencedLinesInSpan_rule rnd (Some defaultFenceRule) tokens idx options env self n =
              Inr (''<pre><code'' @ renderAttrs self (tokens' ! idx) @ ''>''
                     @ join_nl (map (\<lambda>i. span_line (ident i) (escapeHtml (kept ! i))) [0..<length kept])
                     @ ''</code></pre>'' @ [CHR 0x0A],
                   tokens', env'\<lparr>lineMap := lm\<rparr>, n' + length kept)"
    unfolding lm_def ident_def base_def
    by (rule fence_verbatim[of defaultFenceRule tokens idx options env self n defaultOutput
          tokens' env' n' s e kept rnd, OF assms(1-4)]) (simp add: kept_def segments_def)
  have 2: "segments = kept @ [last segments]"
    using ne by (simp add: kept_def)
  have 3: "last segments \<noteq> []"
    using assms(5,6) by (simp add: segments_def last_split_nl)
  have 4: "CHR 0x0A \<notin> set (last segments)"
    by (simp add: segments_def last_split_nl_line)
  have 5: "split_nl (escapeHtml (content (tokens' ! idx)))
               = map escapeHtml kept @ [escapeHtml (last segments)]"
    using arg_cong[OF 2, of "map escapeHtml"] by (simp add: split_nl_escapeHtml segments_def)
  have 6: "escapeHtml (last segments) \<noteq> []"
    using 3 by (simp add: escapeHtml_empty)
  have 7: "filter_not_last (split_nl (escapeHtml (content (tokens' ! idx)))) = map escapeHtml kept"
    by (simp add: 5 filter_not_last_butlast)
  have 8: "\<forall>k. base + int (length kept) < k \<longrightarrow> lm k = lineMap env' k"
    by (simp add: lm_def)
  have 9: "\<forall>xs :: string list. filter_not_last xs = butlast xs"
    by (simp add: filter_not_last_butlast)
  show ?thesis
    by (intro conjI 1 2 3 4 5 6 7 8 9)
qed

text \<open>
  Claim C10. The verbatim adapter discards the last segment of the split content whatever
  it holds: the filter keeps every element but the one at the last index. So when the
  content of a verbatim block is not empty and does not end with a line break, its final
  content line, which is not empty, is neither wrapped in the output nor given a line map
  entry: only the lines before it are wrapped and recorded.
\<close>

theorem verbatim_unterminated_last_line_dropped:
  assumes "defaultFenceRule tokens idx options env self n = Inr (defaultOutput, tokens', env', n')"
    and "startsWith defaultOutput ''<pre''"
    and "idx < length tokens'"
    and "map_t (tokens' ! idx) = Some (s, e)"
    and "content (tokens' ! idx) \<noteq> []"
    and "last (content (tokens' ! idx)) \<noteq> CHR 0x0A"
  shows "let segments = split_nl (content (tokens' ! idx));
             kept = butlast segments;
             base = s + startLine env' - chunkCorrection env';
             ident = (\<lambda>i. fst (randomLineId rnd (n' + i)));
             lm = (\<lambda>k. if base + 1 \<le> k \<and> k < base + 1 + int (length kept)
                        then Some (ident (nat (k - (base + 1)))) else lineMap env' k)
         in wrapFencedLinesInSpan_rule rnd (Some defaultFenceRule) tokens idx options env self n =
              Inr (''<pre><code'' @ renderAttrs self (tokens' ! idx) @ ''>''
                     @ join_nl (map (\<lambda>i. span_line (ident i) (escapeHtml (kept ! i))) [0..<length kept])
                     @ ''</code></pre>'' @ [CHR 0x0A],
                   tokens', env'\<lparr>lineMap := lm\<rparr>, n' + length kept)
          \<and> segments = kept @ [last segments]
          \<and> last segments \<noteq> [] \<and> CHR 0x0A \<notin> set (last segments)
          \<and> split_nl (escapeHtml (content (tokens' ! idx)))
               = map escapeHtml kept @ [escapeHtml (last segments)]
          \<and> escapeHtml (last segments) \<noteq> []
          \<and> filter_not_last (split_nl (escapeHtml (content (tokens' ! idx)))) = map escapeHtml kept
          \<and> (\<forall>k. base + int (length kept) < k \<longrightarrow> lm k = lineMap env' k)
          \<and> (\<forall>xs :: string list. filter_not_last xs = butlast xs)"
  unfolding Let_def
  by (rule verbatim_unterminated_aux[of defaultFenceRule tokens idx options env self n defaultOutput
        tokens' env' n' s e rnd, OF assms])

theorem verbatim_unterminated_last_line_dropped_witness:
  "wrapFencedLinesInSpan_rule example_random (Some (pure_rule example_fence_output))
     [unterminated_fence] 0 () (example_env 0 0) example_renderer 0 =
   Inr (''<pre><code>''
          @ ''<span data-line-id='' @ [CHR 0x22] @ ''07'' @ [CHR 0x22] @ ''>a</span>''
          @ ''</code></pre>'' @ [CHR 0x0A],
        [unterminated_fence],
        \<lparr>startLine = 0, chunkId = 0, lineMap = [1 \<mapsto> ''07'']\<rparr>,
        1)
   \<and> example_fence_output [unterminated_fence] 0 () (example_env 0 0) example_renderer =
       ''<pre><code>a'' @ [CHR 0x0A] @ ''bc</code></pre>'' @ [CHR 0x0A]"
  using verbatim_unterminated_last_line_dropped[of "pure_rule example_fence_output"
      "[unterminated_fence]" 0 "()" "example_env 0 0" example_renderer 0
      "example_fence_output [unterminated_fence] 0 () (example_env 0 0) example_renderer"
      "[unterminated_fence]" "example_env 0 0" 0 0 3 example_random]
  by (simp add: wrapFencedLinesInSpan_rule_def pure_rule_def example_fence_output_def
      unterminated_fence_def startsWith_def example_env_def example_renderer_def
      example_renderAttrs_def filter_not_last_butlast randomLineId_def example_random_def
      SRC_LINE_ID_def Let_def)

text \<open>
  Claim C7. When the unmodified output of the fence rule does not start with the verbatim
  prefix, the adapter returns that output with a blank and the token's attributes spliced
  in at one position, the rest of the string unchanged; the position is that of the first
  closing angle bracket when the output has one, which is the end of the wrapper's opening
  tag. The adapter itself writes no line map entry and mints no identifier: the context,
  the tokens and the random source are those the unmodified rule returned.
\<close>

theorem non_verbatim_fence_only_patched:
  assumes "defaultFenceRule tokens idx options env self n = Inr (defaultOutput, tokens', env', n')"
    and "\<not> startsWith defaultOutput ''<pre''"
    and "idx < length tokens'"
  shows "\<exists>p\<le>length defaultOutput.
           wrapFencedLinesInSpan_rule rnd (Some defaultFenceRule) tokens idx options env self n =
             Inr (take p defaultOutput @ '' '' @ renderAttrs self (tokens' ! idx) @ drop p defaultOutput,
                  tokens', env', n')
         \<and> (CHR ''>'' \<in> set defaultOutput \<longrightarrow>
              p < length defaultOutput \<and> defaultOutput ! p = CHR ''>''
            \<and> CHR ''>'' \<notin> set (take p defaultOutput))"
proof -
  from splice_position[of defaultOutput "CHR ''>''"] obtain p where
    p: "p \<le> length defaultOutput"
    and sl: "slice defaultOutput 0 (indexOf CHR ''>'' defaultOutput) = take p defaultOutput"
    and sf: "slice_from defaultOutput (indexOf CHR ''>'' defaultOutput) = drop p defaultOutput"
    and fst: "CHR ''>'' \<in> set defaultOutput \<longrightarrow>
       p < length defaultOutput \<and> defaultOutput ! p = CHR ''>'' \<and> CHR ''>'' \<notin> set (take p defaultOutput)"
    by blast
  have "wrapFencedLinesInSpan_rule rnd (Some defaultFenceRule) tokens idx options env self n =
             Inr (take p defaultOutput @ '' '' @ renderAttrs self (tokens' ! idx) @ drop p defaultOutput,
                  tokens', env', n')"
    using assms by (simp add: wrapFencedLinesInSpan_rule_def Let_def sl sf)
  with p fst show ?thesis by blast
qed

theorem non_verbatim_fence_only_patched_witness:
  "wrapFencedLinesInSpan_rule example_random (Some (pure_rule diagram_output))
     [Token ''fence'' (Some (2, 5)) None (Some [(''data-line-id'', ''042'')]) ''graph TD'']
     0 () (example_env 0 0) example_renderer 0 =
   Inr (''<div class=mermaid  data-line-id='' @ [CHR 0x22] @ ''042'' @ [CHR 0x22]
          @ ''>graph TD</div>'',
        [Token ''fence'' (Some (2, 5)) None (Some [(''data-line-id'', ''042'')]) ''graph TD''],
        example_env 0 0, 0)"
  using non_verbatim_fence_only_patched[of "pure_rule diagram_output"
      "[Token ''fence'' (Some (2, 5)) None (Some [(''data-line-id'', ''042'')]) ''graph TD'']"
      0 "()" "example_env 0 0" example_renderer 0
      "''<div class=mermaid>graph TD</div>''"
      "[Token ''fence'' (Some (2, 5)) None (Some [(''data-line-id'', ''042'')]) ''graph TD'']"
      "example_env 0 0" 0 example_random]
  by (simp add: wrapFencedLinesInSpan_rule_def pure_rule_def diagram_output_def startsWith_def
      example_renderer_def example_renderAttrs_def slice_def slice_from_def slice_index_def Let_def)

section \<open>The directive attribute patcher and the interception layer\<close>

lemma newRule_spliced:
  assumes "r tokens idx options env self n = Inr (out, toks, e, k)"
    and "idx < length toks"
    and "CHR ''>'' \<in> set out"
  shows "\<exists>p<length out. out ! p = CHR ''>'' \<and> CHR ''>'' \<notin> set (take p out)
           \<and> newRule (Some r) tokens idx options env self n =
               Inr (take p out @ renderAttrs self (toks ! idx) @ drop p out, toks, e, k)"
proof -
  from splice_position[of out "CHR ''>''"] assms(3) obtain p where
    p: "p < length out" "out ! p = CHR ''>''" "CHR ''>'' \<notin> set (take p out)"
    and sl: "slice out 0 (indexOf CHR ''>'' out) = take p out"
    and sf: "slice_from out (indexOf CHR ''>'' out) = drop p out"
    by blast
  have "newRule (Some r) tokens idx options env self n =
               Inr (take p out @ renderAttrs self (toks ! idx) @ drop p out, toks, e, k)"
    using assms(1,2) by (simp add: newRule_def Let_def sl sf)
  with p show ?thesis by blast
qed

lemma installed_directive:
  assumes "well_formed_rules rules" and "k = ''directive'' \<or> k = ''directive_error''"
  shows "map_of (markdownSourceMap rnd rules) k =
           Some (addLineNumberToTokens rnd (Some (newRule (map_of rules k))))"
  using assms(2) installed_rule[OF assms(1), of k rnd] by auto

text \<open>
  Claim C6. The patched directive rule returns the output of the original rule with the
  token's current attributes spliced in immediately before the first closing angle
  bracket. The interception layer wraps the patched rule (for both the generic directive
  rule and its error variant), and it attaches the identifier attribute before it
  delegates; so for a directive token with a span, rendered by an original rule that only
  produces output, the attributes spliced into the opening tag are those of the annotated
  token, whose identifier attribute is the identifier that the line map records for the
  token's line.
\<close>

theorem directive_opening_tag_carries_identifier:
  assumes "idx < length tokens"
    and "type_t (tokens ! idx) = ''directive'' \<or> type_t (tokens ! idx) = ''directive_error''"
    and "map_t (tokens ! idx) = Some (s, e)"
  shows "let ident = fst (randomLineId rnd n);
             line = s + startLine env - chunkCorrection env;
             token' = attrSet (tokens ! idx) SRC_LINE_ID ident;
             tokens' = tokens[idx := token'];
             env' = env\<lparr>lineMap := (lineMap env)(line \<mapsto> ident)\<rparr>;
             html = f tokens' idx options env' self
         in (r toks idx options ctx self m = Inr (out, toksR, ctxR, mR)
               \<and> idx < length toksR \<and> CHR ''>'' \<in> set out \<longrightarrow>
             (\<exists>p<length out. out ! p = CHR ''>'' \<and> CHR ''>'' \<notin> set (take p out)
                \<and> newRule (Some r) toks idx options ctx self m =
                    Inr (take p out @ renderAttrs self (toksR ! idx) @ drop p out,
                         toksR, ctxR, mR)))
          \<and> (CHR ''>'' \<in> set html \<longrightarrow>
             (\<exists>p<length html. html ! p = CHR ''>'' \<and> CHR ''>'' \<notin> set (take p html)
                \<and> addLineNumberToTokens rnd (Some (newRule (Some (pure_rule f))))
                     tokens idx options env self n =
                    Inr (take p html @ renderAttrs self token' @ drop p html,
                         tokens', env', Suc n)))
          \<and> attrGet token' SRC_LINE_ID = Some ident
          \<and> lineMap env' line = Some ident
          \<and> (well_formed_rules rules \<longrightarrow>
               map_of (markdownSourceMap rnd rules) (type_t (tokens ! idx)) =
                 Some (addLineNumberToTokens rnd
                         (Some (newRule (map_of rules (type_t (tokens ! idx)))))))"
proof -
  define ident where "ident = fst (randomLineId rnd n)"
  define token' where "token' = attrSet (tokens ! idx) SRC_LINE_ID ident"
  define tokens' where "tokens' = tokens[idx := token']"
  define env' where
    "env' = env\<lparr>lineMap := (lineMap env)(s + startLine env - chunkCorrection env \<mapsto> ident)\<rparr>"
  define html where "html = f tokens' idx options env' self"
  have nc: "type_t (tokens ! idx) \<notin> set inlineContainers"
    using assms(2) by (auto simp: inlineContainers_def)
  have a: "annotate rnd tokens idx env n = Inr (tokens', env', Suc n)"
    unfolding tokens'_def token'_def env'_def ident_def
    by (rule annotate_spanned[OF assms(1) nc assms(3)])
  have len: "idx < length tokens'" using assms(1) by (simp add: tokens'_def)
  have tok: "tokens' ! idx = token'" using assms(1) by (simp add: tokens'_def)
  have A: "r toks idx options ctx self m = Inr (out, toksR, ctxR, mR)
               \<and> idx < length toksR \<and> CHR ''>'' \<in> set out \<longrightarrow>
             (\<exists>p<length out. out ! p = CHR ''>'' \<and> CHR ''>'' \<notin> set (take p out)
                \<and> newRule (Some r) toks idx options ctx self m =
                    Inr (take p out @ renderAttrs self (toksR ! idx) @ drop p out,
                         toksR, ctxR, mR))"
    using newRule_spliced[of r toks idx options ctx self m out toksR ctxR mR] by blast
  have B: "CHR ''>'' \<in> set html \<longrightarrow>
             (\<exists>p<length html. html ! p = CHR ''>'' \<and> CHR ''>'' \<notin> set (take p html)
                \<and> addLineNumberToTokens rnd (Some (newRule (Some (pure_rule f))))
                     tokens idx options env self n =
                    Inr (take p html @ renderAttrs self token' @ drop p html,
                         tokens', env', Suc n))"
  proof
    assume gt: "CHR ''>'' \<in> set html"
    have pr: "pure_rule f tokens' idx options env' self (Suc n) = Inr (html, tokens', env', Suc n)"
      by (simp add: pure_rule_def html_def)
    from newRule_spliced[of "pure_rule f" tokens' idx options env' self "Suc n" html tokens' env' "Suc n", OF pr len gt]
    obtain p where
      p: "p < length html" "html ! p = CHR ''>''" "CHR ''>'' \<notin> set (take p html)"
      and nr: "newRule (Some (pure_rule f)) tokens' idx options env' self (Suc n) =
               Inr (take p html @ renderAttrs self (tokens' ! idx) @ drop p html, tokens', env', Suc n)"
      by blast
    have "addLineNumberToTokens rnd (Some (newRule (Some (pure_rule f))))
                     tokens idx options env self n =
                    Inr (take p html @ renderAttrs self token' @ drop p html,
                         tokens', env', Suc n)"
      by (simp add: addLineNumberToTokens_def a nr tok)
    with p show "\<exists>p<length html. html ! p = CHR ''>'' \<and> CHR ''>'' \<notin> set (take p html)
                \<and> addLineNumberToTokens rnd (Some (newRule (Some (pure_rule f))))
                     tokens idx options env self n =
                    Inr (take p html @ renderAttrs self token' @ drop p html,
                         tokens', env', Suc n)"
      by blast
  qed
  have C: "attrGet token' SRC_LINE_ID = Some ident"
    by (simp add: token'_def attrGet_attrSet)
  have D: "lineMap env' (s + startLine env - chunkCorrection env) = Some ident"
    by (simp add: env'_def)
  have E: "well_formed_rules rules \<longrightarrow>
               map_of (markdownSourceMap rnd rules) (type_t (tokens ! idx)) =
                 Some (addLineNumberToTokens rnd
                         (Some (newRule (map_of rules (type_t (tokens ! idx))))))"
    using installed_directive[of rules "type_t (tokens ! idx)" rnd] assms(2) by blast
  show ?thesis
    unfolding Let_def
    using A B C D E
    unfolding html_def env'_def tokens'_def token'_def ident_def
    by (intro conjI)
qed

theorem directive_opening_tag_carries_identifier_witness:
  "addLineNumberToTokens example_random (Some (newRule (Some (pure_rule unknown_directive_output))))
     [Token ''directive'' (Some (3, 6)) None None ''x''] 0 () (example_env 0 0) example_renderer 0 =
   Inr (''<aside class=directive-unhandled data-line-id='' @ [CHR 0x22] @ ''07'' @ [CHR 0x22]
          @ ''><pre>x</pre></aside>'',
        [Token ''directive'' (Some (3, 6)) None (Some [(''data-line-id'', ''07'')]) ''x''],
        \<lparr>startLine = 0, chunkId = 0, lineMap = [3 \<mapsto> ''07'']\<rparr>, 1)"
  using directive_opening_tag_carries_identifier[where idx = 0
      and tokens = "[Token ''directive'' (Some (3, 6)) None None ''x'']" and s = 3 and e = 6
      and rnd = example_random and n = 0 and env = "example_env 0 0"
      and f = unknown_directive_output and options = "()" and self = example_renderer
      and r = "pure_rule unknown_directive_output"
      and toks = "[Token ''directive'' (Some (3, 6)) None None ''x'']"
      and ctx = "example_env 0 0" and m = 0
      and out = "''<aside class=directive-unhandled><pre>x</pre></aside>''"
      and toksR = "[Token ''directive'' (Some (3, 6)) None None ''x'']"
      and ctxR = "example_env 0 0" and mR = 0 and rules = "[]"]
  by (simp add: addLineNumberToTokens_def annotate_def inlineContainers_def newRule_def
      pure_rule_def unknown_directive_output_def example_env_def example_renderer_def
      example_renderAttrs_def randomLineId_def example_random_def SRC_LINE_ID_def attrSet_def
      set_attrs_def slice_def slice_from_def slice_index_def Let_def)

section \<open>Entries of the line map are never removed\<close>

lemma keeps_entriesI:
  "(\<And>tokens idx options env self n out tokens' env' n'.
      r tokens idx options env self n = Inr (out, tokens', env', n')
        \<Longrightarrow> dom (lineMap env) \<subseteq> dom (lineMap env')) \<Longrightarrow> keeps_entries r"
  unfolding keeps_entries_def by blast

lemma keeps_entriesD:
  "keeps_entries r \<Longrightarrow> r tokens idx options env self n = Inr (out, tokens', env', n')
     \<Longrightarrow> dom (lineMap env) \<subseteq> dom (lineMap env')"
  unfolding keeps_entries_def by blast

lemma keeps_pure_rule: "keeps_entries (pure_rule f)"
  by (rule keeps_entriesI) (simp add: pure_rule_def)

lemma annotate_keeps:
  assumes "annotate rnd tokens idx env n = Inr (tokens', env', n')"
  shows "dom (lineMap env) \<subseteq> dom (lineMap env')"
  using assms
  by (auto simp: annotate_def Let_def randomLineId_def
      split: if_splits option.splits sum.splits prod.splits)

lemma keeps_addLineNumberToTokens:
  assumes "\<And>r. defaultRule = Some r \<Longrightarrow> keeps_entries r"
  shows "keeps_entries (addLineNumberToTokens rnd defaultRule)"
proof (rule keeps_entriesI)
  fix tokens idx options env self n out tokens' env' n'
  assume a: "addLineNumberToTokens rnd defaultRule tokens idx options env self n = Inr (out, tokens', env', n')"
  then obtain t1 e1 n1 where an: "annotate rnd tokens idx env n = Inr (t1, e1, n1)"
    by (auto simp: addLineNumberToTokens_def split: sum.splits)
  have 1: "dom (lineMap env) \<subseteq> dom (lineMap e1)" by (rule annotate_keeps[OF an])
  have 2: "dom (lineMap e1) \<subseteq> dom (lineMap env')"
  proof (cases defaultRule)
    case None
    with a an show ?thesis by (simp add: addLineNumberToTokens_def)
  next
    case (Some r)
    with a an have "r t1 idx options e1 self n1 = Inr (out, tokens', env', n')"
      by (simp add: addLineNumberToTokens_def)
    from keeps_entriesD[OF assms[OF Some] this] show ?thesis .
  qed
  from 1 2 show "dom (lineMap env) \<subseteq> dom (lineMap env')" by blast
qed

lemma keeps_newRule:
  assumes "\<And>r. defaultRule = Some r \<Longrightarrow> keeps_entries r"
  shows "keeps_entries (newRule defaultRule)"
proof (rule keeps_entriesI)
  fix tokens idx options env self n out tokens' env' n'
  assume a: "newRule defaultRule tokens idx options env self n = Inr (out, tokens', env', n')"
  then obtain r where r: "defaultRule = Some r"
    by (cases defaultRule) (simp_all add: newRule_def)
  with a obtain html where "r tokens idx options env self n = Inr (html, tokens', env', n')"
    by (auto simp: newRule_def Let_def split: sum.splits if_splits)
  from keeps_entriesD[OF assms[OF r] this] show "dom (lineMap env) \<subseteq> dom (lineMap env')" .
qed

lemma keeps_wrapTextInSpan_rule:
  assumes "\<And>r. defaultRule = Some r \<Longrightarrow> keeps_entries r"
  shows "keeps_entries (wrapTextInSpan_rule defaultRule)"
proof (rule keeps_entriesI)
  fix tokens idx options env self n out tokens' env' n'
  assume a: "wrapTextInSpan_rule defaultRule tokens idx options env self n = Inr (out, tokens', env', n')"
  then obtain r where r: "defaultRule = Some r"
    by (cases defaultRule) (simp_all add: wrapTextInSpan_rule_def)
  with a obtain html where "r tokens idx options env self n = Inr (html, tokens', env', n')"
    by (auto simp: wrapTextInSpan_rule_def Let_def split: sum.splits if_splits)
  from keeps_entriesD[OF assms[OF r] this] show "dom (lineMap env) \<subseteq> dom (lineMap env')" .
qed

lemma wrap_lines_keeps:
  "wrap_lines rnd sl i ls lm n = (spans, lm', n') \<Longrightarrow> dom lm \<subseteq> dom lm'"
  unfolding wrap_lines_eq by (auto split: if_splits)

lemma keeps_wrapFencedLinesInSpan_rule:
  assumes "\<And>r. defaultRule = Some r \<Longrightarrow> keeps_entries r"
  shows "keeps_entries (wrapFencedLinesInSpan_rule rnd defaultRule)"
proof (rule keeps_entriesI)
  fix tokens idx options env self n out tokens' env' n'
  assume a: "wrapFencedLinesInSpan_rule rnd defaultRule tokens idx options env self n = Inr (out, tokens', env', n')"
  then obtain r where r: "defaultRule = Some r"
    by (cases defaultRule) (simp_all add: wrapFencedLinesInSpan_rule_def)
  with a obtain html t1 e1 n1 where d: "r tokens idx options env self n = Inr (html, t1, e1, n1)"
    by (auto simp: wrapFencedLinesInSpan_rule_def split: sum.splits)
  have 1: "dom (lineMap env) \<subseteq> dom (lineMap e1)" by (rule keeps_entriesD[OF assms[OF r] d])
  have 2: "dom (lineMap e1) \<subseteq> dom (lineMap env')"
    using a r d
    by (auto simp: wrapFencedLinesInSpan_rule_def Let_def
        split: if_splits option.splits prod.splits dest!: wrap_lines_keeps)
  from 1 2 show "dom (lineMap env) \<subseteq> dom (lineMap env')" by blast
qed

lemma keeps_installed:
  assumes "\<And>k r. map_of rules k = Some r \<Longrightarrow> keeps_entries r"
    and "map_of (markdownSourceMap rnd rules) k = Some r"
  shows "keeps_entries r"
proof -
  let ?r1 = "wrapFencedLinesInSpan rnd (wrapTextInSpan (overrideDefaultDirectives rules))"
  have r1: "keeps_entries r'" if "map_of ?r1 k' = Some r'" for k' r'
    using that assms(1)
    by (auto simp: map_of_adapters split: if_splits
        intro!: keeps_newRule keeps_wrapTextInSpan_rule keeps_wrapFencedLinesInSpan_rule)
  have fold: "keeps_entries r'"
    if "map_of (foldl (\<lambda>rs rule. AList.update rule (addLineNumberToTokens rnd (map_of rs rule)) rs) rs0 ks) k' = Some r'"
      and "\<And>k r. map_of rs0 k = Some r \<Longrightarrow> keeps_entries r"
    for rs0 :: "'a rules" and ks k' r'
    using that
  proof (induction ks arbitrary: rs0)
    case Nil
    then show ?case by simp
  next
    case (Cons a ks)
    show ?case
    proof (rule Cons.IH)
      show "map_of (foldl (\<lambda>rs rule. AList.update rule (addLineNumberToTokens rnd (map_of rs rule)) rs)
              (AList.update a (addLineNumberToTokens rnd (map_of rs0 a)) rs0) ks) k' = Some r'"
        using Cons.prems(1) by simp
    next
      fix k r
      assume "map_of (AList.update a (addLineNumberToTokens rnd (map_of rs0 a)) rs0) k = Some r"
      then show "keeps_entries r"
        using Cons.prems(2)
        by (auto simp: update_conv' split: if_splits intro!: keeps_addLineNumberToTokens)
    qed
  qed
  show ?thesis
    using assms(2) r1 unfolding markdownSourceMap_def Let_def by (rule fold)
qed

lemma run_rules_keeps:
  assumes "\<And>i toks e k out toks' e' k'.
      step i toks e k = Inr (out, toks', e', k') \<Longrightarrow> dom (lineMap e) \<subseteq> dom (lineMap e')"
    and "run_rules step is result tokens env n = Inr (out, tokens', env', n')"
  shows "dom (lineMap env) \<subseteq> dom (lineMap env')"
  using assms(2)
proof (induction "is" arbitrary: result tokens env n)
  case Nil
  then show ?case by simp
next
  case (Cons i "is")
  from Cons.prems obtain o1 t1 e1 n1 where
    s: "step i tokens env n = Inr (o1, t1, e1, n1)"
    and rest: "run_rules step is (result @ o1) t1 e1 n1 = Inr (out, tokens', env', n')"
    by (auto split: sum.splits)
  from assms(1)[OF s] Cons.IH[OF rest] show ?case by blast
qed

lemma dispatch_keeps:
  assumes "\<And>k r. map_of rules k = Some r \<Longrightarrow> keeps_entries r"
    and "dispatch rules tokens i options env self n = Inr (out, tokens', env', n')"
  shows "dom (lineMap env) \<subseteq> dom (lineMap env')"
  using assms(2)
  by (auto simp: dispatch_def split: if_splits option.splits dest: keeps_entriesD[OF assms(1)])

lemma renderInline_keeps:
  assumes "\<And>k r. map_of rules k = Some r \<Longrightarrow> keeps_entries r"
    and "renderInline rules tokens options env self n = Inr (out, tokens', env', n')"
  shows "dom (lineMap env) \<subseteq> dom (lineMap env')"
  using assms(2) unfolding renderInline_def
  by (rule run_rules_keeps[rotated]) (rule dispatch_keeps[OF assms(1)])

lemma render_keeps:
  assumes "\<And>k r. map_of rules k = Some r \<Longrightarrow> keeps_entries r"
    and "render rules tokens options env self n = Inr (out, tokens', env', n')"
  shows "dom (lineMap env) \<subseteq> dom (lineMap env')"
  using assms(2) unfolding render_def
proof (rule run_rules_keeps[rotated])
  fix i toks e k out toks' e' k'
  assume "render_step rules toks i options e self k = Inr (out, toks', e', k')"
  then consider
      cs cs' where "renderInline rules cs options e self k = Inr (out, cs', e', k')"
    | "dispatch rules toks i options e self k = Inr (out, toks', e', k')"
    by (auto simp: render_step_def split: if_splits option.splits sum.splits)
  then show "dom (lineMap e) \<subseteq> dom (lineMap e')"
  proof cases
    case 1
    show ?thesis
      using assms(1) 1 by (rule renderInline_keeps)
  next
    case 2
    show ?thesis
      using assms(1) 2 by (rule dispatch_keeps)
  qed
qed

lemma library_rules_keep: "map_of (library_rules fs) k = Some r \<Longrightarrow> keeps_entries r"
  by (induction fs) (auto simp: library_rules_def keeps_pure_rule split: if_splits)

lemma pass_keeps_entries:
  assumes "render (markdownSourceMap rnd (library_rules fs)) tokens options env self n =
             Inr (out, tokens', env', n')"
  shows "dom (lineMap env) \<subseteq> dom (lineMap env')"
  using assms
  by (rule render_keeps[rotated]) (rule keeps_installed[OF library_rules_keep])

lemma run_rules_append:
  "run_rules step (xs @ ys) result tokens env n =
     (case run_rules step xs result tokens env n of
        Inl e \<Rightarrow> Inl e
      | Inr (r, t, e, k) \<Rightarrow> run_rules step ys r t e k)"
  by (induction xs arbitrary: result tokens env n) (auto split: sum.splits)

lemma spans_before_Suc:
  "m < length tokens \<Longrightarrow>
     spans_before (Suc m) tokens = spans_before m tokens + (if map_t (tokens ! m) \<noteq> None then 1 else 0)"
  by (simp add: spans_before_def take_Suc_conv_app_nth)

lemma spans_before_mono: "i \<le> j \<Longrightarrow> spans_before i tokens \<le> spans_before j tokens"
proof (induction j)
  case 0
  then show ?case by simp
next
  case (Suc j)
  show ?case
  proof (cases "i = Suc j")
    case True
    then show ?thesis by simp
  next
    case False
    with Suc have le: "spans_before i tokens \<le> spans_before j tokens" by simp
    show ?thesis
    proof (cases "j < length tokens")
      case True
      with le show ?thesis by (simp add: spans_before_Suc)
    next
      case False
      then have "spans_before (Suc j) tokens = spans_before j tokens"
        by (simp add: spans_before_def)
      with le show ?thesis by simp
    qed
  qed
qed

lemma spans_before_less:
  assumes "i < j" and "j \<le> length tokens" and "map_t (tokens ! i) \<noteq> None"
  shows "spans_before i tokens < spans_before j tokens"
proof -
  have "spans_before (Suc i) tokens = Suc (spans_before i tokens)"
    using assms by (simp add: spans_before_Suc)
  moreover have "spans_before (Suc i) tokens \<le> spans_before j tokens"
    using assms(1) by (intro spans_before_mono) simp
  ultimately show ?thesis by simp
qed

lemma annotator_overwrites:
  assumes "i < length toks" and "type_t (toks ! i) \<notin> set inlineContainers"
    and "map_t (toks ! i) = Some (s, e)"
  shows "addLineNumberToTokens rnd r toks i options ctx self m =
     (let ident = fst (randomLineId rnd m);
          toks' = toks[i := attrSet (toks ! i) SRC_LINE_ID ident];
          ctx' = ctx\<lparr>lineMap := (lineMap ctx)(s + startLine ctx - chunkCorrection ctx \<mapsto> ident)\<rparr>
      in case r of
           None \<Rightarrow> Inr (renderToken self toks' i options, toks', ctx', Suc m)
         | Some d \<Rightarrow> d toks' i options ctx' self (Suc m))"
  by (simp add: addLineNumberToTokens_def annotate_spanned[OF assms] Let_def split: option.splits)

lemma plain_step:
  assumes wf: "well_formed_rules (library_rules fs)"
    and gen: "plainly_rendered (library_rules fs) (toks ! i)"
    and i: "i < length toks"
  shows "\<exists>out. render_step (markdownSourceMap rnd (library_rules fs)) toks i options env self n =
     (case claimed_line env (toks ! i) of
        None \<Rightarrow> Inr (out, toks, env, n)
      | Some l \<Rightarrow>
          Inr (out, toks[i := attrSet (toks ! i) SRC_LINE_ID (fst (randomLineId rnd n))],
               env\<lparr>lineMap := (lineMap env)(l \<mapsto> fst (randomLineId rnd n))\<rparr>, Suc n))"
proof -
  let ?k = "type_t (toks ! i)"
  from gen have k: "?k \<noteq> ''softbreak''" "?k \<noteq> ''inline''" "?k \<noteq> ''text''" "?k \<noteq> ''fence''"
      "?k \<noteq> ''directive''" "?k \<noteq> ''directive_error''" "?k \<notin> set inlineContainers"
    and mem: "?k \<in> set (map fst (library_rules fs)) \<union> {''admonition_open'', ''link_open''}"
    by (simp_all add: plainly_rendered_def inlineContainers_def)
  from mem have mem': "?k \<in> set (map fst (library_rules fs)) \<union> {''directive'', ''directive_error'', ''text'', ''fence'',
           ''paragraph_open'', ''heading_open'', ''admonition_open'', ''link_open''}"
    by (simp del: set_map)
  have inst: "map_of (markdownSourceMap rnd (library_rules fs)) ?k =
      Some (addLineNumberToTokens rnd (map_of (library_rules fs) ?k))"
    using installed_rule[OF wf k(1) mem', of rnd] k by simp
  have step: "render_step (markdownSourceMap rnd (library_rules fs)) toks i options env self n =
      addLineNumberToTokens rnd (map_of (library_rules fs) ?k) toks i options env self n"
    using i k(2) by (simp add: render_step_def dispatch_def inst)
  show ?thesis
  proof (cases "map_of (library_rules fs) ?k")
    case None
    then show ?thesis
      unfolding step using i k(7)
      by (cases "map_t (toks ! i)")
        (auto simp: addLineNumberToTokens_def annotate_def claimed_line_def randomLineId_def Let_def)
  next
    case (Some r)
    from library_rules_pure[OF Some] obtain f where "r = pure_rule f" ..
    with Some show ?thesis
      unfolding step using i k(7)
      by (cases "map_t (toks ! i)")
        (auto simp: addLineNumberToTokens_def annotate_def claimed_line_def randomLineId_def Let_def
          pure_rule_def)
  qed
qed


lemma claimed_line_same:
  "startLine env' = startLine env \<Longrightarrow> chunkId env' = chunkId env \<Longrightarrow>
     claimed_line env' t = claimed_line env t"
  by (simp add: claimed_line_def split: option.splits)

lemma claimed_line_None: "claimed_line env t = None \<longleftrightarrow> map_t t = None"
  by (simp add: claimed_line_def split: option.splits)

lemma plain_run:
  assumes wf: "well_formed_rules (library_rules fs)"
    and gen: "\<forall>t\<in>set tokens. plainly_rendered (library_rules fs) t"
  shows "m \<le> length tokens \<Longrightarrow>
    \<exists>html toks' env'.
      run_rules (\<lambda>i toks e k. render_step (markdownSourceMap rnd (library_rules fs)) toks i options e self k)
        [0..<m] [] tokens env n = Inr (html, toks', env', n + spans_before m tokens)
      \<and> length toks' = length tokens \<and> startLine env' = startLine env \<and> chunkId env' = chunkId env
      \<and> (\<forall>j<length tokens. toks' ! j =
            (if j < m \<and> map_t (tokens ! j) \<noteq> None
             then attrSet (tokens ! j) SRC_LINE_ID (fst (randomLineId rnd (n + spans_before j tokens)))
             else tokens ! j))
      \<and> (\<forall>i<m. \<forall>l. claimed_line env (tokens ! i) = Some l
              \<and> (\<forall>j. i < j \<and> j < m \<longrightarrow> claimed_line env (tokens ! j) \<noteq> Some l)
            \<longrightarrow> lineMap env' l = Some (fst (randomLineId rnd (n + spans_before i tokens))))
      \<and> (\<forall>l. (\<forall>i<m. claimed_line env (tokens ! i) \<noteq> Some l) \<longrightarrow> lineMap env' l = lineMap env l)"
proof (induction m)
  case 0
  show ?case by (simp add: spans_before_def)
next
  case (Suc m)
  let ?step = "\<lambda>i toks e k. render_step (markdownSourceMap rnd (library_rules fs)) toks i options e self k"
  let ?id = "\<lambda>i. fst (randomLineId rnd (n + spans_before i tokens))"
  from Suc.prems have m: "m < length tokens" by simp
  with Suc.IH obtain html toks1 env1 where
    run: "run_rules ?step [0..<m] [] tokens env n = Inr (html, toks1, env1, n + spans_before m tokens)"
    and len: "length toks1 = length tokens"
    and sl: "startLine env1 = startLine env" and ci: "chunkId env1 = chunkId env"
    and nth: "\<forall>j<length tokens. toks1 ! j =
            (if j < m \<and> map_t (tokens ! j) \<noteq> None then attrSet (tokens ! j) SRC_LINE_ID (?id j)
             else tokens ! j)"
    and last: "\<forall>i<m. \<forall>l. claimed_line env (tokens ! i) = Some l
              \<and> (\<forall>j. i < j \<and> j < m \<longrightarrow> claimed_line env (tokens ! j) \<noteq> Some l)
            \<longrightarrow> lineMap env1 l = Some (?id i)"
    and others: "\<forall>l. (\<forall>i<m. claimed_line env (tokens ! i) \<noteq> Some l) \<longrightarrow> lineMap env1 l = lineMap env l"
    by auto
  from nth m have tm: "toks1 ! m = tokens ! m" by simp
  from m gen have "plainly_rendered (library_rules fs) (tokens ! m)" by simp
  then have gm: "plainly_rendered (library_rules fs) (toks1 ! m)" by (simp only: tm)
  from m len have m1: "m < length toks1" by simp
  have cl: "claimed_line env1 (tokens ! m) = claimed_line env (tokens ! m)"
    by (rule claimed_line_same[OF sl ci])
  from plain_step[OF wf gm m1, of rnd options env1 self "n + spans_before m tokens"]
  obtain out where step: "?step m toks1 env1 (n + spans_before m tokens) =
     (case claimed_line env (tokens ! m) of
        None \<Rightarrow> Inr (out, toks1, env1, n + spans_before m tokens)
      | Some l \<Rightarrow>
          Inr (out, toks1[m := attrSet (tokens ! m) SRC_LINE_ID (?id m)],
               env1\<lparr>lineMap := (lineMap env1)(l \<mapsto> ?id m)\<rparr>, Suc (n + spans_before m tokens)))"
    unfolding tm cl by blast
  have runS: "run_rules ?step [0..<Suc m] [] tokens env n =
      (case ?step m toks1 env1 (n + spans_before m tokens) of
         Inl e \<Rightarrow> Inl e
       | Inr (out, t, e, k) \<Rightarrow> Inr (html @ out, t, e, k))"
    by (simp add: run_rules_append run split: sum.splits)
  show ?case
  proof (cases "claimed_line env (tokens ! m)")
    case None
    then have mt: "map_t (tokens ! m) = None" by (simp add: claimed_line_None)
    have r: "run_rules ?step [0..<Suc m] [] tokens env n =
        Inr (html @ out, toks1, env1, n + spans_before (Suc m) tokens)"
      unfolding runS step by (simp add: None spans_before_Suc[OF m] mt)
    have a: "\<forall>j<length tokens. toks1 ! j =
            (if j < Suc m \<and> map_t (tokens ! j) \<noteq> None then attrSet (tokens ! j) SRC_LINE_ID (?id j)
             else tokens ! j)"
    proof (intro allI impI)
      fix j assume "j < length tokens"
      with nth have "toks1 ! j =
            (if j < m \<and> map_t (tokens ! j) \<noteq> None then attrSet (tokens ! j) SRC_LINE_ID (?id j)
             else tokens ! j)" by simp
      then show "toks1 ! j =
            (if j < Suc m \<and> map_t (tokens ! j) \<noteq> None then attrSet (tokens ! j) SRC_LINE_ID (?id j)
             else tokens ! j)"
        using mt by (cases "j = m") (simp_all add: less_Suc_eq)
    qed
    have b: "\<forall>i<Suc m. \<forall>l. claimed_line env (tokens ! i) = Some l
              \<and> (\<forall>j. i < j \<and> j < Suc m \<longrightarrow> claimed_line env (tokens ! j) \<noteq> Some l)
            \<longrightarrow> lineMap env1 l = Some (?id i)"
    proof (intro allI impI)
      fix i l
      assume i: "i < Suc m"
        and h: "claimed_line env (tokens ! i) = Some l
              \<and> (\<forall>j. i < j \<and> j < Suc m \<longrightarrow> claimed_line env (tokens ! j) \<noteq> Some l)"
      from h None have "i \<noteq> m" by auto
      with i have im: "i < m" by simp
      from h have "claimed_line env (tokens ! i) = Some l
              \<and> (\<forall>j. i < j \<and> j < m \<longrightarrow> claimed_line env (tokens ! j) \<noteq> Some l)" by simp
      with last im show "lineMap env1 l = Some (?id i)" by blast
    qed
    have c: "\<forall>l. (\<forall>i<Suc m. claimed_line env (tokens ! i) \<noteq> Some l) \<longrightarrow> lineMap env1 l = lineMap env l"
      using others by simp
    from r len sl ci a b c show ?thesis by blast
  next
    case (Some l0)
    then have mt: "map_t (tokens ! m) \<noteq> None" by (simp add: claimed_line_def split: option.splits)
    let ?toks = "toks1[m := attrSet (tokens ! m) SRC_LINE_ID (?id m)]"
    let ?env = "env1\<lparr>lineMap := (lineMap env1)(l0 \<mapsto> ?id m)\<rparr>"
    have r: "run_rules ?step [0..<Suc m] [] tokens env n =
        Inr (html @ out, ?toks, ?env, n + spans_before (Suc m) tokens)"
      unfolding runS step by (simp add: Some spans_before_Suc[OF m] mt)
    have len': "length ?toks = length tokens" using len by simp
    have sl': "startLine ?env = startLine env" using sl by simp
    have ci': "chunkId ?env = chunkId env" using ci by simp
    have a: "\<forall>j<length tokens. ?toks ! j =
            (if j < Suc m \<and> map_t (tokens ! j) \<noteq> None then attrSet (tokens ! j) SRC_LINE_ID (?id j)
             else tokens ! j)"
    proof (intro allI impI)
      fix j assume j: "j < length tokens"
      with nth have n1: "toks1 ! j =
            (if j < m \<and> map_t (tokens ! j) \<noteq> None then attrSet (tokens ! j) SRC_LINE_ID (?id j)
             else tokens ! j)" by simp
      show "?toks ! j =
            (if j < Suc m \<and> map_t (tokens ! j) \<noteq> None then attrSet (tokens ! j) SRC_LINE_ID (?id j)
             else tokens ! j)"
      proof (cases "j = m")
        case True
        with mt m1 show ?thesis by simp
      next
        case False
        with n1 show ?thesis by (simp add: less_Suc_eq)
      qed
    qed
    have b: "\<forall>i<Suc m. \<forall>l. claimed_line env (tokens ! i) = Some l
              \<and> (\<forall>j. i < j \<and> j < Suc m \<longrightarrow> claimed_line env (tokens ! j) \<noteq> Some l)
            \<longrightarrow> lineMap ?env l = Some (?id i)"
    proof (intro allI impI)
      fix i l
      assume i: "i < Suc m"
        and h: "claimed_line env (tokens ! i) = Some l
              \<and> (\<forall>j. i < j \<and> j < Suc m \<longrightarrow> claimed_line env (tokens ! j) \<noteq> Some l)"
      show "lineMap ?env l = Some (?id i)"
      proof (cases "i = m")
        case True
        with h Some have "l = l0" by simp
        with True show ?thesis by simp
      next
        case False
        with i have im: "i < m" by simp
        with h have "claimed_line env (tokens ! m) \<noteq> Some l" by simp
        with Some have ne: "l \<noteq> l0" by simp
        from h have "claimed_line env (tokens ! i) = Some l
              \<and> (\<forall>j. i < j \<and> j < m \<longrightarrow> claimed_line env (tokens ! j) \<noteq> Some l)" by simp
        with last im have "lineMap env1 l = Some (?id i)" by blast
        with ne show ?thesis by simp
      qed
    qed
    have c: "\<forall>l. (\<forall>i<Suc m. claimed_line env (tokens ! i) \<noteq> Some l) \<longrightarrow> lineMap ?env l = lineMap env l"
    proof (intro allI impI)
      fix l assume h: "\<forall>i<Suc m. claimed_line env (tokens ! i) \<noteq> Some l"
      then have "claimed_line env (tokens ! m) \<noteq> Some l" by simp
      with Some have ne: "l \<noteq> l0" by simp
      from h have "\<forall>i<m. claimed_line env (tokens ! i) \<noteq> Some l" by simp
      with others have "lineMap env1 l = lineMap env l" by blast
      with ne show "lineMap ?env l = lineMap env l" by simp
    qed
    show ?thesis
      apply (rule exI[of _ "html @ out"])
      apply (rule exI[of _ ?toks])
      apply (rule exI[of _ ?env])
      using r len' sl' ci' a b c apply (intro conjI)
            apply assumption+
      done
  qed
qed


text \<open>
  Claim C5. Take a pass through the installed rules over a stream of plainly rendered
  tokens, the library's own rules only producing output. Every token that claims a line
  mints an identifier of its own, a later token a later draw of the random source, and
  leaves the pass with that identifier as its attribute. After the pass the line map holds,
  for every claimed line, the identifier of the last token that claims it: of two tokens
  that claim the same line the later write wins. A line that no token claims keeps what it
  had, and no entry is removed. Rule by rule: the annotator, run on a token with a span,
  writes its fresh identifier at the token's line whatever the line map held there, and
  only then delegates. No annotation removes an entry, and neither does any pass through the
  installed rules over a library whose own rules only produce output.
\<close>

theorem last_write_wins:
  assumes "well_formed_rules (library_rules fs)"
    and "\<forall>t\<in>set tokens. plainly_rendered (library_rules fs) t"
  shows "\<exists>html tokens' env'.
      render (markdownSourceMap rnd (library_rules fs)) tokens options env self n =
        Inr (html, tokens', env', n + spans_before (length tokens) tokens)
    \<and> length tokens' = length tokens
    \<and> (\<forall>i<length tokens. claimed_line env (tokens ! i) \<noteq> None \<longrightarrow>
          attrGet (tokens' ! i) SRC_LINE_ID = Some (fst (randomLineId rnd (n + spans_before i tokens))))
    \<and> (\<forall>i<length tokens. \<forall>j<length tokens. i < j \<and> claimed_line env (tokens ! i) \<noteq> None \<longrightarrow>
          spans_before i tokens < spans_before j tokens)
    \<and> (\<forall>i<length tokens. \<forall>l.
          claimed_line env (tokens ! i) = Some l
            \<and> (\<forall>j. i < j \<and> j < length tokens \<longrightarrow> claimed_line env (tokens ! j) \<noteq> Some l)
          \<longrightarrow> lineMap env' l = Some (fst (randomLineId rnd (n + spans_before i tokens))))
    \<and> (\<forall>l. (\<forall>i<length tokens. claimed_line env (tokens ! i) \<noteq> Some l) \<longrightarrow> lineMap env' l = lineMap env l)
    \<and> dom (lineMap env) \<subseteq> dom (lineMap env')
    \<and> (\<forall>r toks i s e ctx m.
          i < length toks \<and> type_t (toks ! i) \<notin> set inlineContainers \<and> map_t (toks ! i) = Some (s, e)
          \<longrightarrow> addLineNumberToTokens rnd r toks i options ctx self m =
                (let ident = fst (randomLineId rnd m);
                     toks' = toks[i := attrSet (toks ! i) SRC_LINE_ID ident];
                     ctx' = ctx\<lparr>lineMap := (lineMap ctx)(s + startLine ctx - chunkCorrection ctx \<mapsto> ident)\<rparr>
                 in case r of
                      None \<Rightarrow> Inr (renderToken self toks' i options, toks', ctx', Suc m)
                    | Some d \<Rightarrow> d toks' i options ctx' self (Suc m)))
    \<and> (\<forall>toks idx ctx m toksR ctxR mR.
          annotate rnd toks idx ctx m = Inr (toksR, ctxR, mR)
            \<longrightarrow> dom (lineMap ctx) \<subseteq> dom (lineMap ctxR))
    \<and> (\<forall>gs toks ctx m out toksR ctxR mR.
          render (markdownSourceMap rnd (library_rules gs)) toks options ctx self m =
            Inr (out, toksR, ctxR, mR)
            \<longrightarrow> dom (lineMap ctx) \<subseteq> dom (lineMap ctxR))"
proof -
  let ?id = "\<lambda>i. fst (randomLineId rnd (n + spans_before i tokens))"
  from plain_run[OF assms, of "length tokens" rnd options self env n]
  obtain html toks' env' where
    run: "render (markdownSourceMap rnd (library_rules fs)) tokens options env self n =
        Inr (html, toks', env', n + spans_before (length tokens) tokens)"
    and len: "length toks' = length tokens"
    and nth: "\<forall>j<length tokens. toks' ! j =
            (if j < length tokens \<and> map_t (tokens ! j) \<noteq> None
             then attrSet (tokens ! j) SRC_LINE_ID (?id j) else tokens ! j)"
    and last: "\<forall>i<length tokens. \<forall>l. claimed_line env (tokens ! i) = Some l
              \<and> (\<forall>j. i < j \<and> j < length tokens \<longrightarrow> claimed_line env (tokens ! j) \<noteq> Some l)
            \<longrightarrow> lineMap env' l = Some (?id i)"
    and others: "\<forall>l. (\<forall>i<length tokens. claimed_line env (tokens ! i) \<noteq> Some l)
            \<longrightarrow> lineMap env' l = lineMap env l"
    unfolding render_def by auto
  have a: "\<forall>i<length tokens. claimed_line env (tokens ! i) \<noteq> None \<longrightarrow>
          attrGet (toks' ! i) SRC_LINE_ID = Some (?id i)"
    using nth by (simp add: claimed_line_None attrGet_attrSet)
  have b: "\<forall>i<length tokens. \<forall>j<length tokens. i < j \<and> claimed_line env (tokens ! i) \<noteq> None \<longrightarrow>
          spans_before i tokens < spans_before j tokens"
    by (simp add: claimed_line_None spans_before_less)
  have c: "dom (lineMap env) \<subseteq> dom (lineMap env')"
    by (rule pass_keeps_entries[OF run])
  have d: "\<forall>r toks i s e ctx m.
          i < length toks \<and> type_t (toks ! i) \<notin> set inlineContainers \<and> map_t (toks ! i) = Some (s, e)
          \<longrightarrow> addLineNumberToTokens rnd r toks i options ctx self m =
                (let ident = fst (randomLineId rnd m);
                     toks' = toks[i := attrSet (toks ! i) SRC_LINE_ID ident];
                     ctx' = ctx\<lparr>lineMap := (lineMap ctx)(s + startLine ctx - chunkCorrection ctx \<mapsto> ident)\<rparr>
                 in case r of
                      None \<Rightarrow> Inr (renderToken self toks' i options, toks', ctx', Suc m)
                    | Some d \<Rightarrow> d toks' i options ctx' self (Suc m))"
    by (intro allI impI) (rule annotator_overwrites, simp_all)
  have e: "\<forall>toks idx ctx m toksR ctxR mR.
          annotate rnd toks idx ctx m = Inr (toksR, ctxR, mR)
            \<longrightarrow> dom (lineMap ctx) \<subseteq> dom (lineMap ctxR)"
    by (intro allI impI) (rule annotate_keeps)
  have f: "\<forall>gs toks ctx m out toksR ctxR mR.
          render (markdownSourceMap rnd (library_rules gs)) toks options ctx self m =
            Inr (out, toksR, ctxR, mR)
            \<longrightarrow> dom (lineMap ctx) \<subseteq> dom (lineMap ctxR)"
    by (intro allI impI) (rule pass_keeps_entries)
  show ?thesis
    apply (rule exI[of _ html])
    apply (rule exI[of _ toks'])
    apply (rule exI[of _ env'])
    using run len a b last others c d e f apply (intro conjI)
             apply assumption+
    done
qed

theorem last_write_wins_witness:
  "well_formed_rules (raw_html_rules :: unit rules)
   \<and> render (markdownSourceMap example_random raw_html_rules)
       [Token ''html_block'' (Some (2, 4)) None None ''<p>'',
        Token ''html_inline'' (Some (2, 3)) None None ''<b>''] () (example_env 0 0) example_renderer 0 =
     Inr (''<p><b>'',
          [Token ''html_block'' (Some (2, 4)) None (Some [(''data-line-id'', ''07'')]) ''<p>'',
           Token ''html_inline'' (Some (2, 3)) None (Some [(''data-line-id'', ''077'')]) ''<b>''],
          \<lparr>startLine = 0, chunkId = 0, lineMap = [2 \<mapsto> ''077'']\<rparr>, 2)"
proof -
  have h1: "well_formed_rules (raw_html_rules :: unit rules)"
    by (simp add: well_formed_rules_def raw_html_rules_def library_rules_def)
  have h2: "\<forall>t\<in>set [Token ''html_block'' (Some (2, 4)) None None ''<p>'',
                Token ''html_inline'' (Some (2, 3)) None None ''<b>''].
        plainly_rendered (raw_html_rules :: unit rules) t"
    by (simp add: plainly_rendered_def raw_html_rules_def library_rules_def)
  have ev: "render (markdownSourceMap example_random raw_html_rules)
       [Token ''html_block'' (Some (2, 4)) None None ''<p>'',
        Token ''html_inline'' (Some (2, 3)) None None ''<b>''] () (example_env 0 0) example_renderer 0 =
     Inr (''<p><b>'',
          [Token ''html_block'' (Some (2, 4)) None (Some [(''data-line-id'', ''07'')]) ''<p>'',
           Token ''html_inline'' (Some (2, 3)) None (Some [(''data-line-id'', ''077'')]) ''<b>''],
          \<lparr>startLine = 0, chunkId = 0, lineMap = [2 \<mapsto> ''077'']\<rparr>, 2)"
    by (simp add: render_def render_step_def dispatch_def upt_rec addLineNumberToTokens_def
        annotate_def inlineContainers_def pure_rule_def randomLineId_def Let_def
        markdownSourceMap_def wrapFencedLinesInSpan_def wrapTextInSpan_def raw_html_rules_def
        library_rules_def overrideDefaultDirectives_def overrideRules_def excludeRules_def
        attrSet_def set_attrs_def example_random_def example_env_def SRC_LINE_ID_def)
  show ?thesis
    using last_write_wins[OF h1[unfolded raw_html_rules_def] h2[unfolded raw_html_rules_def],
        of example_random "()" "example_env 0 0" example_renderer 0]
    by (intro conjI h1 ev)
qed

section \<open>The round trip between the line map and the markup\<close>

























lemma set_children_twice: "set_children (set_children t a) b = set_children t b"
  by (simp add: set_children_def)





section \<open>Line breaks\<close>

lemma breaks_kept_refl: "breaks_kept ts ts"
  by (simp add: breaks_kept_def)

lemma breaks_kept_trans: "breaks_kept a b \<Longrightarrow> breaks_kept b c \<Longrightarrow> breaks_kept a c"
  by (simp add: breaks_kept_def)

lemma tokens_kept_refl: "tokens_kept ts ts"
  by (simp add: tokens_kept_def breaks_kept_refl)

lemma tokens_kept_trans:
  assumes "tokens_kept a b" and "tokens_kept b c"
  shows "tokens_kept a c"
proof -
  have len: "length b = length a" using assms(1) by (simp add: tokens_kept_def breaks_kept_def)
  have "\<exists>cs'. children (c ! j) = Some cs' \<and> breaks_kept cs cs'"
    if j: "j < length a" and cs: "children (a ! j) = Some cs" for j cs
  proof -
    from assms(1) j cs obtain cs1 where 1: "children (b ! j) = Some cs1" "breaks_kept cs cs1"
      unfolding tokens_kept_def by blast
    from assms(2) j len 1(1) obtain cs2 where 2: "children (c ! j) = Some cs2" "breaks_kept cs1 cs2"
      unfolding tokens_kept_def by force
    from 1(2) 2 show ?thesis by (blast intro: breaks_kept_trans)
  qed
  moreover have "breaks_kept a c"
    using assms by (auto simp: tokens_kept_def intro: breaks_kept_trans)
  ultimately show ?thesis by (simp add: tokens_kept_def)
qed

lemma breaks_kept_Cons:
  "breaks_kept (c # cs) (c' # cs') \<longleftrightarrow>
     type_t c' = type_t c
     \<and> (type_t c = ''softbreak'' \<longrightarrow> attrs c' = attrs c \<and> map_t c' = map_t c)
     \<and> breaks_kept cs cs'"
  unfolding breaks_kept_def by (simp add: All_less_Suc2) blast

lemma walk_children_breaks_kept:
  "walk_children m k u cs = Inr cs' \<Longrightarrow> breaks_kept cs cs'"
proof (induction cs arbitrary: k u cs')
  case Nil
  then show ?case by (simp add: breaks_kept_def)
next
  case (Cons c rest)
  from Cons.prems obtain k' u' c' rest' where
    w: "walk_children m k' u' rest = Inr rest'" and cs': "cs' = c' # rest'"
    and c': "type_t c' = type_t c"
      "type_t c = ''softbreak'' \<longrightarrow> c' = c"
    by (auto simp: set_map_t_def split: if_splits sum.splits option.splits)
  from Cons.IH[OF w] have "breaks_kept rest rest'" .
  with c' show ?case
    unfolding cs' breaks_kept_Cons by blast
qed

lemma tokens_kept_children_update:
  assumes "i < length tokens" and "children (tokens ! i) = Some cs" and "breaks_kept cs cs'"
  shows "tokens_kept tokens (tokens[i := set_children (tokens ! i) (Some cs')])"
  unfolding tokens_kept_def breaks_kept_def
proof (intro conjI allI impI)
  show "length (tokens[i := set_children (tokens ! i) (Some cs')]) = length tokens" by simp
next
  fix j assume "j < length tokens"
  then show "type_t (tokens[i := set_children (tokens ! i) (Some cs')] ! j) = type_t (tokens ! j)"
    by (cases "j = i") (simp_all add: set_children_def)
next
  fix j assume "j < length tokens"
  then show "attrs (tokens[i := set_children (tokens ! i) (Some cs')] ! j) = attrs (tokens ! j)"
    by (cases "j = i") (simp_all add: set_children_def)
next
  fix j assume "j < length tokens"
  then show "map_t (tokens[i := set_children (tokens ! i) (Some cs')] ! j) = map_t (tokens ! j)"
    by (cases "j = i") (simp_all add: set_children_def)
next
  fix j ds assume j: "j < length tokens" and ds: "children (tokens ! j) = Some ds"
  show "\<exists>ds'. children (tokens[i := set_children (tokens ! i) (Some cs')] ! j) = Some ds'
          \<and> length ds' = length ds
          \<and> (\<forall>k<length ds. type_t (ds' ! k) = type_t (ds ! k)
               \<and> (type_t (ds ! k) = ''softbreak'' \<longrightarrow>
                    attrs (ds' ! k) = attrs (ds ! k) \<and> map_t (ds' ! k) = map_t (ds ! k)))"
  proof (cases "j = i")
    case True
    with ds assms(2) have "ds = cs" by simp
    with True assms(1,3) show ?thesis
      by (simp add: set_children_def breaks_kept_def)
  next
    case False
    with j ds show ?thesis by simp
  qed
qed

lemma tokens_kept_attr_update:
  assumes "i < length tokens" and "type_t (tokens ! i) \<noteq> ''softbreak''"
  shows "tokens_kept tokens (tokens[i := attrSet (tokens ! i) name v])"
  unfolding tokens_kept_def breaks_kept_def
proof (intro conjI allI impI)
  show "length (tokens[i := attrSet (tokens ! i) name v]) = length tokens" by simp
next
  fix j assume "j < length tokens"
  then show "type_t (tokens[i := attrSet (tokens ! i) name v] ! j) = type_t (tokens ! j)"
    by (cases "j = i") (simp_all add: attrSet_fields)
next
  fix j assume "j < length tokens" and "type_t (tokens ! j) = ''softbreak''"
  with assms(2) have "j \<noteq> i" by auto
  then show "attrs (tokens[i := attrSet (tokens ! i) name v] ! j) = attrs (tokens ! j)" by simp
next
  fix j assume "j < length tokens"
  then show "map_t (tokens[i := attrSet (tokens ! i) name v] ! j) = map_t (tokens ! j)"
    by (cases "j = i") (simp_all add: attrSet_fields)
next
  fix j ds assume j: "j < length tokens" and ds: "children (tokens ! j) = Some ds"
  then have "children (tokens[i := attrSet (tokens ! i) name v] ! j) = Some ds"
    by (cases "j = i") (simp_all add: attrSet_fields)
  then show "\<exists>ds'. children (tokens[i := attrSet (tokens ! i) name v] ! j) = Some ds'
          \<and> length ds' = length ds
          \<and> (\<forall>k<length ds. type_t (ds' ! k) = type_t (ds ! k)
               \<and> (type_t (ds ! k) = ''softbreak'' \<longrightarrow>
                    attrs (ds' ! k) = attrs (ds ! k) \<and> map_t (ds' ! k) = map_t (ds ! k)))"
    by simp
qed

lemma annotate_tokens_kept:
  assumes "annotate rnd tokens idx env n = Inr (tokens', env', n')"
    and "type_t (tokens ! idx) \<noteq> ''softbreak''"
  shows "tokens_kept tokens tokens'"
proof (cases "idx < length tokens")
  case False
  with assms(1) show ?thesis by (simp add: annotate_def)
next
  case len: True
  show ?thesis
  proof (cases "type_t (tokens ! idx) \<in> set inlineContainers")
    case True
    with assms(1) len have l2: "idx + 1 < length tokens"
      by (simp add: annotate_def split: if_splits)
    with assms(1) len True obtain cs where cs: "children (tokens ! (idx + 1)) = Some cs"
      by (cases "children (tokens ! (idx + 1))") (simp_all add: annotate_def Let_def)
    with assms(1) len True l2 obtain cs' where
      w: "walk_children (map_t (tokens ! idx)) 0 False cs = Inr cs'"
      and t: "tokens' = tokens[idx + 1 := set_children (tokens ! (idx + 1)) (Some cs')]"
      by (cases "walk_children (map_t (tokens ! idx)) 0 False cs")
        (simp_all add: annotate_def Let_def)
    show ?thesis
      unfolding t
      by (rule tokens_kept_children_update[OF l2 cs walk_children_breaks_kept[OF w]])
  next
    case False
    show ?thesis
    proof (cases "map_t (tokens ! idx)")
      case None
      with assms(1) len False have "tokens' = tokens" by (simp add: annotate_def)
      then show ?thesis by (simp add: tokens_kept_refl)
    next
      case (Some p)
      with assms(1) len False have
        "tokens' = tokens[idx := attrSet (tokens ! idx) SRC_LINE_ID (fst (randomLineId rnd n))]"
        by (cases p) (auto simp: annotate_def Let_def randomLineId_def)
      then show ?thesis
        using tokens_kept_attr_update[OF len assms(2)] by simp
    qed
  qed
qed

lemma annotate_type:
  assumes "annotate rnd tokens idx env n = Inr (tokens', env', n')"
  shows "type_t (tokens' ! idx) = type_t (tokens ! idx)"
  using assms
  by (auto simp: annotate_def Let_def randomLineId_def nth_list_update attrSet_fields
      split: if_splits option.splits sum.splits prod.splits)

lemma spares_breaksI:
  "(\<And>tokens idx options env self n out tokens' env' n'.
      r tokens idx options env self n = Inr (out, tokens', env', n') \<Longrightarrow>
      type_t (tokens ! idx) \<noteq> ''softbreak'' \<Longrightarrow> tokens_kept tokens tokens') \<Longrightarrow> spares_breaks r"
  unfolding spares_breaks_def by blast

lemma spares_breaksD:
  "spares_breaks r \<Longrightarrow> r tokens idx options env self n = Inr (out, tokens', env', n') \<Longrightarrow>
     type_t (tokens ! idx) \<noteq> ''softbreak'' \<Longrightarrow> tokens_kept tokens tokens'"
  unfolding spares_breaks_def by blast

lemma spares_pure_rule: "spares_breaks (pure_rule f)"
  by (rule spares_breaksI) (simp add: pure_rule_def tokens_kept_refl)

lemma spares_addLineNumberToTokens:
  assumes "\<And>r. defaultRule = Some r \<Longrightarrow> spares_breaks r"
  shows "spares_breaks (addLineNumberToTokens rnd defaultRule)"
proof (rule spares_breaksI)
  fix tokens idx options env self n out tokens' env' n'
  assume a: "addLineNumberToTokens rnd defaultRule tokens idx options env self n = Inr (out, tokens', env', n')"
    and ty: "type_t (tokens ! idx) \<noteq> ''softbreak''"
  then obtain t1 e1 n1 where an: "annotate rnd tokens idx env n = Inr (t1, e1, n1)"
    by (auto simp: addLineNumberToTokens_def split: sum.splits)
  have 1: "tokens_kept tokens t1" by (rule annotate_tokens_kept[OF an ty])
  have ty1: "type_t (t1 ! idx) \<noteq> ''softbreak''" using annotate_type[OF an] ty by simp
  have 2: "tokens_kept t1 tokens'"
  proof (cases defaultRule)
    case None
    with a an show ?thesis by (simp add: addLineNumberToTokens_def tokens_kept_refl)
  next
    case (Some r)
    with a an have "r t1 idx options e1 self n1 = Inr (out, tokens', env', n')"
      by (simp add: addLineNumberToTokens_def)
    from spares_breaksD[OF assms[OF Some] this ty1] show ?thesis .
  qed
  from 1 2 show "tokens_kept tokens tokens'" by (rule tokens_kept_trans)
qed

lemma spares_newRule:
  assumes "\<And>r. defaultRule = Some r \<Longrightarrow> spares_breaks r"
  shows "spares_breaks (newRule defaultRule)"
proof (rule spares_breaksI)
  fix tokens idx options env self n out tokens' env' n'
  assume a: "newRule defaultRule tokens idx options env self n = Inr (out, tokens', env', n')"
    and ty: "type_t (tokens ! idx) \<noteq> ''softbreak''"
  from a obtain r where r: "defaultRule = Some r"
    by (cases defaultRule) (simp_all add: newRule_def)
  with a obtain html where "r tokens idx options env self n = Inr (html, tokens', env', n')"
    by (auto simp: newRule_def Let_def split: sum.splits if_splits)
  from spares_breaksD[OF assms[OF r] this ty] show "tokens_kept tokens tokens'" .
qed

lemma spares_wrapTextInSpan_rule:
  assumes "\<And>r. defaultRule = Some r \<Longrightarrow> spares_breaks r"
  shows "spares_breaks (wrapTextInSpan_rule defaultRule)"
proof (rule spares_breaksI)
  fix tokens idx options env self n out tokens' env' n'
  assume a: "wrapTextInSpan_rule defaultRule tokens idx options env self n = Inr (out, tokens', env', n')"
    and ty: "type_t (tokens ! idx) \<noteq> ''softbreak''"
  from a obtain r where r: "defaultRule = Some r"
    by (cases defaultRule) (simp_all add: wrapTextInSpan_rule_def)
  with a obtain html where "r tokens idx options env self n = Inr (html, tokens', env', n')"
    by (auto simp: wrapTextInSpan_rule_def Let_def split: sum.splits if_splits)
  from spares_breaksD[OF assms[OF r] this ty] show "tokens_kept tokens tokens'" .
qed

lemma spares_wrapFencedLinesInSpan_rule:
  assumes "\<And>r. defaultRule = Some r \<Longrightarrow> spares_breaks r"
  shows "spares_breaks (wrapFencedLinesInSpan_rule rnd defaultRule)"
proof (rule spares_breaksI)
  fix tokens idx options env self n out tokens' env' n'
  assume a: "wrapFencedLinesInSpan_rule rnd defaultRule tokens idx options env self n = Inr (out, tokens', env', n')"
    and ty: "type_t (tokens ! idx) \<noteq> ''softbreak''"
  from a obtain r where r: "defaultRule = Some r"
    by (cases defaultRule) (simp_all add: wrapFencedLinesInSpan_rule_def)
  with a obtain html e1 n1 where "r tokens idx options env self n = Inr (html, tokens', e1, n1)"
    by (auto simp: wrapFencedLinesInSpan_rule_def Let_def
        split: sum.splits if_splits option.splits prod.splits)
  from spares_breaksD[OF assms[OF r] this ty] show "tokens_kept tokens tokens'" .
qed

lemma spares_installed:
  assumes "\<And>k r. map_of rules k = Some r \<Longrightarrow> spares_breaks r"
    and "map_of (markdownSourceMap rnd rules) k = Some r"
  shows "spares_breaks r"
proof -
  let ?r1 = "wrapFencedLinesInSpan rnd (wrapTextInSpan (overrideDefaultDirectives rules))"
  have r1: "spares_breaks r'" if "map_of ?r1 k' = Some r'" for k' r'
    using that assms(1)
    by (auto simp: map_of_adapters split: if_splits
        intro!: spares_newRule spares_wrapTextInSpan_rule spares_wrapFencedLinesInSpan_rule)
  have fold: "spares_breaks r'"
    if "map_of (foldl (\<lambda>rs rule. AList.update rule (addLineNumberToTokens rnd (map_of rs rule)) rs) rs0 ks) k' = Some r'"
      and "\<And>k r. map_of rs0 k = Some r \<Longrightarrow> spares_breaks r"
    for rs0 :: "'a rules" and ks k' r'
    using that
  proof (induction ks arbitrary: rs0)
    case Nil
    then show ?case by simp
  next
    case (Cons a ks)
    show ?case
    proof (rule Cons.IH)
      show "map_of (foldl (\<lambda>rs rule. AList.update rule (addLineNumberToTokens rnd (map_of rs rule)) rs)
              (AList.update a (addLineNumberToTokens rnd (map_of rs0 a)) rs0) ks) k' = Some r'"
        using Cons.prems(1) by simp
    next
      fix k r
      assume "map_of (AList.update a (addLineNumberToTokens rnd (map_of rs0 a)) rs0) k = Some r"
      then show "spares_breaks r"
        using Cons.prems(2)
        by (auto simp: update_conv' split: if_splits intro!: spares_addLineNumberToTokens)
    qed
  qed
  show ?thesis
    using assms(2) r1 unfolding markdownSourceMap_def Let_def by (rule fold)
qed

lemma dispatch_tokens_kept:
  assumes "dispatch (markdownSourceMap rnd (library_rules fs)) tokens i options env self n =
             Inr (out, tokens', env', n')"
  shows "tokens_kept tokens tokens'"
proof (cases "type_t (tokens ! i) = ''softbreak''")
  case True
  have "map_of (markdownSourceMap rnd (library_rules fs)) ''softbreak'' = None
      \<or> (\<exists>f. map_of (markdownSourceMap rnd (library_rules fs)) ''softbreak'' = Some (pure_rule f))"
    unfolding installed_softbreak
    using library_rules_pure[of fs "''softbreak''"] by (cases "map_of (library_rules fs) ''softbreak''") auto
  with assms True have "tokens' = tokens"
    by (auto simp: dispatch_def pure_rule_def split: if_splits)
  then show ?thesis by (simp add: tokens_kept_refl)
next
  case False
  have sp: "spares_breaks r" if "map_of (markdownSourceMap rnd (library_rules fs)) k = Some r" for k r
    using that
  proof (rule spares_installed[rotated])
    fix k r
    assume "map_of (library_rules fs) k = Some r"
    from library_rules_pure[OF this] show "spares_breaks r" by (auto simp: spares_pure_rule)
  qed
  from assms consider
      r where "map_of (markdownSourceMap rnd (library_rules fs)) (type_t (tokens ! i)) = Some r"
        "r tokens i options env self n = Inr (out, tokens', env', n')"
    | "tokens' = tokens"
    by (auto simp: dispatch_def split: if_splits option.splits)
  then show ?thesis
  proof cases
    case 1
    from spares_breaksD[OF sp[OF 1(1)] 1(2) False] show ?thesis .
  next
    case 2
    then show ?thesis by (simp add: tokens_kept_refl)
  qed
qed

lemma run_rules_tokens_kept:
  assumes "\<And>i toks e k out toks' e' k'.
      step i toks e k = Inr (out, toks', e', k') \<Longrightarrow> tokens_kept toks toks'"
    and "run_rules step is result tokens env n = Inr (out, tokens', env', n')"
  shows "tokens_kept tokens tokens'"
  using assms(2)
proof (induction "is" arbitrary: result tokens env n)
  case Nil
  then show ?case by (simp add: tokens_kept_refl)
next
  case (Cons i "is")
  from Cons.prems obtain o1 t1 e1 n1 where
    s: "step i tokens env n = Inr (o1, t1, e1, n1)"
    and rest: "run_rules step is (result @ o1) t1 e1 n1 = Inr (out, tokens', env', n')"
    by (auto split: sum.splits)
  from assms(1)[OF s] Cons.IH[OF rest] show ?case by (rule tokens_kept_trans)
qed

lemma renderInline_tokens_kept:
  assumes "renderInline (markdownSourceMap rnd (library_rules fs)) tokens options env self n =
             Inr (out, tokens', env', n')"
  shows "tokens_kept tokens tokens'"
  using assms unfolding renderInline_def
  by (rule run_rules_tokens_kept[rotated]) (rule dispatch_tokens_kept)

lemma render_step_tokens_kept:
  assumes "render_step (markdownSourceMap rnd (library_rules fs)) tokens i options env self n =
             Inr (out, tokens', env', n')"
  shows "tokens_kept tokens tokens'"
proof -
  from assms consider
      cs cs' where "i < length tokens" "children (tokens ! i) = Some cs"
        "renderInline (markdownSourceMap rnd (library_rules fs)) cs options env self n = Inr (out, cs', env', n')"
        "tokens' = tokens[i := set_children (tokens ! i) (Some cs')]"
    | "dispatch (markdownSourceMap rnd (library_rules fs)) tokens i options env self n = Inr (out, tokens', env', n')"
    by (auto simp: render_step_def split: if_splits option.splits sum.splits)
  then show ?thesis
  proof cases
    case 1
    from renderInline_tokens_kept[OF 1(3)] have "breaks_kept cs cs'"
      by (simp add: tokens_kept_def)
    then show ?thesis
      unfolding 1(4) by (rule tokens_kept_children_update[OF 1(1,2)])
  next
    case 2
    then show ?thesis by (rule dispatch_tokens_kept)
  qed
qed

lemma render_tokens_kept:
  assumes "render (markdownSourceMap rnd (library_rules fs)) tokens options env self n =
             Inr (out, tokens', env', n')"
  shows "tokens_kept tokens tokens'"
  using assms unfolding render_def
  by (rule run_rules_tokens_kept[rotated]) (rule render_step_tokens_kept)

lemma walk_children_softbreak_same:
  "walk_children m k u cs = Inr cs' \<Longrightarrow>
     length cs' = length cs \<and> (\<forall>j<length cs. type_t (cs ! j) = ''softbreak'' \<longrightarrow> cs' ! j = cs ! j)"
proof (induction cs arbitrary: k u cs')
  case Nil
  then show ?case by simp
next
  case (Cons c rest)
  from Cons.prems obtain k' u' c' rest' where
    w: "walk_children m k' u' rest = Inr rest'" and cs': "cs' = c' # rest'"
    and c': "type_t c = ''softbreak'' \<longrightarrow> c' = c"
    by (auto split: if_splits sum.splits option.splits)
  from Cons.IH[OF w] c' show ?case
    unfolding cs' by (simp add: All_less_Suc2)
qed

lemma walk_children_softbreak_step:
  "type_t c = ''softbreak'' \<Longrightarrow>
     walk_children m k used (c # rest) =
       (case walk_children m (k + 1) False rest of Inl e \<Rightarrow> Inl e | Inr rest' \<Rightarrow> Inr (c # rest'))"
  by simp

lemma dispatch_softbreak_same:
  assumes "type_t (tokens ! i) = ''softbreak''"
  shows "dispatch (markdownSourceMap rnd rules) tokens i options env self n =
           dispatch rules tokens i options env self n"
  using assms by (simp add: dispatch_def installed_softbreak)

lemma dispatch_softbreak_library:
  assumes "i < length tokens" and "type_t (tokens ! i) = ''softbreak''"
  shows "\<exists>out. dispatch (markdownSourceMap rnd (library_rules fs)) tokens i options env self n =
           Inr (out, tokens, env, n)"
proof (cases "map_of (library_rules fs) ''softbreak''")
  case None
  with assms show ?thesis by (simp add: dispatch_def installed_softbreak)
next
  case (Some r)
  from library_rules_pure[OF this] obtain f where "r = pure_rule f" by blast
  with Some assms show ?thesis by (simp add: dispatch_def installed_softbreak pure_rule_def)
qed

text \<open>
  Claim C8. Line break tokens are never annotated. The installation leaves the rule for
  line breaks as it was, so a line break token is rendered exactly as without the layer;
  over a library whose own rules only produce output, rendering it changes neither the
  tokens, nor the line map, nor the random source, and after a whole pass every line break
  token of the stream and of the children of its tokens has the attribute bag and the span
  it had before. Inside the walk of an inline container a line break child only increments
  the visual line counter and clears the claimed flag, and it comes out as it went in.
\<close>

theorem softbreak_never_annotated:
  "map_of (markdownSourceMap rnd rules) ''softbreak'' = map_of rules ''softbreak''
   \<and> ''softbreak'' \<notin> set (overrideRules rules)
   \<and> (type_t (tokens ! i) = ''softbreak'' \<longrightarrow>
        dispatch (markdownSourceMap rnd rules) tokens i options env self n =
          dispatch rules tokens i options env self n)
   \<and> (i < length tokens \<and> type_t (tokens ! i) = ''softbreak'' \<longrightarrow>
        (\<exists>out. dispatch (markdownSourceMap rnd (library_rules fs)) tokens i options env self n =
                  Inr (out, tokens, env, n)))
   \<and> (type_t c = ''softbreak'' \<longrightarrow>
        walk_children m k used (c # rest) =
          (case walk_children m (k + 1) False rest of
             Inl e \<Rightarrow> Inl e
           | Inr rest' \<Rightarrow> Inr (c # rest')))
   \<and> (\<forall>cs cs'. walk_children m k used cs = Inr cs' \<longrightarrow>
        length cs' = length cs
        \<and> (\<forall>j<length cs. type_t (cs ! j) = ''softbreak'' \<longrightarrow> cs' ! j = cs ! j))
   \<and> (\<forall>toks html toks' env' n'.
        render (markdownSourceMap rnd (library_rules fs)) toks options env self n =
          Inr (html, toks', env', n')
        \<longrightarrow> tokens_kept toks toks')"
proof (intro conjI)
  show "map_of (markdownSourceMap rnd rules) ''softbreak'' = map_of rules ''softbreak''"
    by (rule installed_softbreak)
  show "''softbreak'' \<notin> set (overrideRules rules)"
    by (rule softbreak_not_overridden)
  show "type_t (tokens ! i) = ''softbreak'' \<longrightarrow>
        dispatch (markdownSourceMap rnd rules) tokens i options env self n =
          dispatch rules tokens i options env self n"
    by (intro impI) (rule dispatch_softbreak_same)
  show "i < length tokens \<and> type_t (tokens ! i) = ''softbreak'' \<longrightarrow>
        (\<exists>out. dispatch (markdownSourceMap rnd (library_rules fs)) tokens i options env self n =
                  Inr (out, tokens, env, n))"
    using dispatch_softbreak_library[of i tokens rnd fs options env self n] by blast
  show "type_t c = ''softbreak'' \<longrightarrow>
        walk_children m k used (c # rest) =
          (case walk_children m (k + 1) False rest of
             Inl e \<Rightarrow> Inl e
           | Inr rest' \<Rightarrow> Inr (c # rest'))"
    by (intro impI) (rule walk_children_softbreak_step)
  show "\<forall>cs cs'. walk_children m k used cs = Inr cs' \<longrightarrow>
        length cs' = length cs
        \<and> (\<forall>j<length cs. type_t (cs ! j) = ''softbreak'' \<longrightarrow> cs' ! j = cs ! j)"
    by (intro allI impI) (rule walk_children_softbreak_same)
  show "\<forall>toks html toks' env' n'.
        render (markdownSourceMap rnd (library_rules fs)) toks options env self n =
          Inr (html, toks', env', n')
        \<longrightarrow> tokens_kept toks toks'"
    by (intro allI impI) (rule render_tokens_kept)
qed

theorem softbreak_never_annotated_witness:
  "dispatch (markdownSourceMap example_random (text_rules escapeHtml [CHR 0x0A]))
     [text_token ''a'', softbreak_token] 1 () (example_env 0 0) example_renderer 0 =
   Inr ([CHR 0x0A], [text_token ''a'', softbreak_token], example_env 0 0, 0)
   \<and> walk_children (Some (4, 6)) 0 True [softbreak_token, text_token ''b''] =
       Inr [softbreak_token, Token ''text'' (Some (5, 6)) None None ''b'']"
  using softbreak_never_annotated[where rnd = example_random
      and rules = "text_rules escapeHtml [CHR 0x0A]"
      and tokens = "[text_token ''a'', softbreak_token]" and i = 1 and options = "()"
      and env = "example_env 0 0" and self = example_renderer and n = 0
      and fs = "[(''text'', \<lambda>tokens idx options env self. escapeHtml (content (tokens ! idx))),
                 (''softbreak'', \<lambda>tokens idx options env self. [CHR 0x0A])]"
      and c = softbreak_token and m = "Some (4, 6)" and k = 0 and used = True
      and rest = "[text_token ''b'']"]
  by (simp add: dispatch_def installed_text_rules pure_rule_def softbreak_token_def text_token_def
      set_map_t_def)

end
